theory Spec2Isabelle
  imports Complex_Main "HOL-Library.Stream"
begin

section \<open>Data model of the network simulator\<close>

text \<open>
  The development follows \<^verbatim>\<open>tech295.py\<close>.  Python floats are read as real numbers
  (exact arithmetic: rounding, overflow and underflow of IEEE doubles are outside the
  model), Python ints as \<^typ>\<open>int\<close>, strings as \<^typ>\<open>string\<close>, dictionaries keyed by
  node pairs as maps.  Every exception the code can raise is a value of \<open>py_error\<close>.
\<close>

datatype py_error =
    KeyError
  | ZeroDivisionError
  | ValueError string
  | NodeNotFound
  | NetworkXNoPath

record NetworkNode =
  name :: string
  ip_address :: string
  is_router :: bool
  area_id :: int

subsection \<open>The graph library\<close>

text \<open>
  \<^verbatim>\<open>networkx\<close> is an external library.  An undirected \<^verbatim>\<open>nx.Graph\<close> is a dictionary from
  each node to the dictionary of its neighbours; both keep insertion order.  It is
  modelled as an association list of association lists, the innermost value being the
  data attached to the edge (nothing for the topology, the weight for the routing graph).
\<close>

type_synonym 'a nx_graph = "(string \<times> (string \<times> 'a) list) list"

fun dict_set :: "'k \<Rightarrow> 'v \<Rightarrow> ('k \<times> 'v) list \<Rightarrow> ('k \<times> 'v) list" where
  "dict_set k v [] = [(k, v)]"
| "dict_set k v ((k', v') # kvs) =
     (if k = k' then (k, v) # kvs else (k', v') # dict_set k v kvs)"

definition nx_has_node :: "'a nx_graph \<Rightarrow> string \<Rightarrow> bool" where
  "nx_has_node g n = (n \<in> set (map fst g))"

definition nx_adj :: "'a nx_graph \<Rightarrow> string \<Rightarrow> (string \<times> 'a) list" where
  "nx_adj g n = (case map_of g n of None \<Rightarrow> [] | Some nbrs \<Rightarrow> nbrs)"

definition nx_add_node :: "string \<Rightarrow> 'a nx_graph \<Rightarrow> 'a nx_graph" where
  "nx_add_node n g = (if nx_has_node g n then g else g @ [(n, [])])"

definition nx_add_edge :: "string \<Rightarrow> string \<Rightarrow> 'a \<Rightarrow> 'a nx_graph \<Rightarrow> 'a nx_graph" where
  "nx_add_edge u v a g =
     (let g1 = nx_add_node v (nx_add_node u g);
          g2 = dict_set u (dict_set v a (nx_adj g1 u)) g1
      in dict_set v (dict_set u a (nx_adj g2 v)) g2)"

text \<open>
  \<^verbatim>\<open>G.edges()\<close> reports every undirected edge once: it walks the nodes in order and
  yields \<open>(n, nbr)\<close> for each neighbour of \<open>n\<close> that has not been walked yet.
\<close>

fun nx_edges_from :: "string list \<Rightarrow> 'a nx_graph \<Rightarrow> (string \<times> string) list" where
  "nx_edges_from seen [] = []"
| "nx_edges_from seen ((n, nbrs) # rest) =
     map (\<lambda>(m, _). (n, m)) (filter (\<lambda>(m, _). m \<notin> set seen) nbrs)
       @ nx_edges_from (n # seen) rest"

definition nx_edges :: "'a nx_graph \<Rightarrow> (string \<times> string) list" where
  "nx_edges g = nx_edges_from [] g"

subsection \<open>The simulator object and the random module\<close>

record NetworkSimulator =
  graph :: "unit nx_graph"
  nodes :: "(string \<times> NetworkNode) list"
  latencies :: "string \<times> string \<rightharpoonup> real"
  ospf_costs :: "string \<times> string \<rightharpoonup> int"
  running :: bool

text \<open>
  The state of the global \<^verbatim>\<open>random\<close> module is the stream of the values that
  \<^verbatim>\<open>random.random()\<close> is going to return; \<^verbatim>\<open>random.uniform(a, b)\<close> is
  \<^verbatim>\<open>a + (b - a) * random()\<close>.
\<close>

type_synonym rng = "real stream"

definition random_random :: "rng \<Rightarrow> real \<times> rng" where
  "random_random r = (shd r, stl r)"

definition random_uniform :: "real \<Rightarrow> real \<Rightarrow> rng \<Rightarrow> real \<times> rng" where
  "random_uniform a b r = (a + (b - a) * shd r, stl r)"

text \<open>\<^verbatim>\<open>int(x)\<close> on a float truncates toward zero.\<close>

definition py_int :: "real \<Rightarrow> int" where
  "py_int x = (if 0 \<le> x then \<lfloor>x\<rfloor> else \<lceil>x\<rceil>)"

text \<open>The expression \<^verbatim>\<open>int(100 / (latency / 10))\<close>; a zero divisor raises.\<close>

definition link_cost :: "real \<Rightarrow> py_error + int" where
  "link_cost latency =
     (if latency / 10 = 0 then Inl ZeroDivisionError
      else Inr (py_int (100 / (latency / 10))))"

section \<open>Construction\<close>

definition node_positions :: "(string \<times> int \<times> int) list" where
  "node_positions =
     [(''R1'', 0, 2), (''R2'', 2, 2), (''R3'', 2, 0), (''R4'', 0, 0),
      (''N1'', 1, 3), (''N2'', 3, 1), (''N3'', 1, -1)]"

definition connections :: "(string \<times> string) list" where
  "connections =
     [(''R1'', ''R2''), (''R2'', ''R3''), (''R3'', ''R4''), (''R4'', ''R1''),
      (''R1'', ''N1''), (''R2'', ''N2''), (''R3'', ''N3'')]"

fun digit_char :: "nat \<Rightarrow> char" where
  "digit_char n = char_of (48 + n)"

function str_nat :: "nat \<Rightarrow> string" where
  "str_nat n = (if n < 10 then [digit_char n] else str_nat (n div 10) @ [digit_char (n mod 10)])"
  by pat_completeness auto
termination
  by (relation "measure id") auto

declare str_nat.simps [simp del]

fun starts_with :: "string \<Rightarrow> string \<Rightarrow> bool" where
  "starts_with s [] = True"
| "starts_with [] (c # cs) = False"
| "starts_with (d # ds) (c # cs) = (d = c \<and> starts_with ds cs)"

definition make_node :: "string \<Rightarrow> nat \<Rightarrow> NetworkNode" where
  "make_node node_name k =
     \<lparr> name = node_name,
       ip_address = ''192.168.1.'' @ str_nat k,
       is_router = starts_with node_name ''R'',
       area_id = (if node_name \<in> set [''R1'', ''N1''] then 0
                  else if node_name \<in> set [''R2'', ''N2''] then 1 else 2) \<rparr>"

fun create_nodes :: "(string \<times> int \<times> int) list \<Rightarrow> NetworkSimulator \<Rightarrow> NetworkSimulator" where
  "create_nodes [] s = s"
| "create_nodes ((node_name, x, y) # rest) s =
     create_nodes rest
       (s\<lparr> nodes := dict_set node_name (make_node node_name (length (nodes s))) (nodes s),
           graph := nx_add_node node_name (graph s) \<rparr>)"

text \<open>
  The loop over \<^verbatim>\<open>connections\<close>.  The result is the exception raised (if any), the
  object as the loop left it, and the state of the random module.
\<close>

fun create_edges ::
  "(string \<times> string) list \<Rightarrow> NetworkSimulator \<Rightarrow> rng \<Rightarrow> py_error option \<times> NetworkSimulator \<times> rng" where
  "create_edges [] s r = (None, s, r)"
| "create_edges ((u, v) # rest) s r =
     (let s1 = s\<lparr> graph := nx_add_edge u v () (graph s) \<rparr>;
          (latency, r') = random_uniform 10 50 r;
          s2 = s1\<lparr> latencies := (latencies s1)((u, v) \<mapsto> latency, (v, u) \<mapsto> latency) \<rparr>
      in case link_cost latency of
           Inl e \<Rightarrow> (Some e, s2, r')
         | Inr cost \<Rightarrow>
             create_edges rest
               (s2\<lparr> ospf_costs := (ospf_costs s2)((u, v) \<mapsto> cost, (v, u) \<mapsto> cost) \<rparr>) r')"

definition initialize_network :: "NetworkSimulator \<Rightarrow> rng \<Rightarrow> py_error option \<times> NetworkSimulator \<times> rng" where
  "initialize_network s r = create_edges connections (create_nodes node_positions s) r"

definition blank :: NetworkSimulator where
  "blank = \<lparr> graph = [], nodes = [], latencies = Map.empty, ospf_costs = Map.empty,
             running = False \<rparr>"

text \<open>\<^verbatim>\<open>NetworkSimulator()\<close>: an exception in the constructor leaves no object.\<close>

definition init :: "rng \<Rightarrow> py_error + NetworkSimulator \<times> rng" where
  "init r =
     (case initialize_network blank r of
        (Some e, _, _) \<Rightarrow> Inl e
      | (None, s, r') \<Rightarrow> Inr (s\<lparr> running := True \<rparr>, r'))"

section \<open>The latency updater\<close>

text \<open>
  The body of the \<^verbatim>\<open>for edge in self.graph.edges()\<close> loop of \<^verbatim>\<open>update_latencies\<close>
  for one edge, and one whole run of the loop.  The result is the exception raised (if
  any), the object as it was left, and the state of the random module.
\<close>

definition perturb_edge ::
  "string \<times> string \<Rightarrow> NetworkSimulator \<Rightarrow> rng \<Rightarrow> py_error option \<times> NetworkSimulator \<times> rng" where
  "perturb_edge edge s r =
     (case latencies s edge of
        None \<Rightarrow> (Some KeyError, s, r)
      | Some current_latency \<Rightarrow>
          (let (factor, r') = random_uniform 0.9 1.1 r;
               new_latency = current_latency * factor;
               s1 = s\<lparr> latencies := (latencies s)(edge \<mapsto> new_latency,
                                                    (snd edge, fst edge) \<mapsto> new_latency) \<rparr>
           in case link_cost new_latency of
                Inl e \<Rightarrow> (Some e, s1, r')
              | Inr cost \<Rightarrow>
                  (None, s1\<lparr> ospf_costs := (ospf_costs s1)(edge \<mapsto> cost,
                                                             (snd edge, fst edge) \<mapsto> cost) \<rparr>, r')))"

fun perturb_edges ::
  "(string \<times> string) list \<Rightarrow> NetworkSimulator \<Rightarrow> rng \<Rightarrow> py_error option \<times> NetworkSimulator \<times> rng" where
  "perturb_edges [] s r = (None, s, r)"
| "perturb_edges (edge # rest) s r =
     (case perturb_edge edge s r of
        (Some e, s', r') \<Rightarrow> (Some e, s', r')
      | (None, s', r') \<Rightarrow> perturb_edges rest s' r')"

definition perturb_pass :: "NetworkSimulator \<Rightarrow> rng \<Rightarrow> py_error option \<times> NetworkSimulator \<times> rng" where
  "perturb_pass s r = perturb_edges (nx_edges (graph s)) s r"

text \<open>
  \<^verbatim>\<open>update_latencies\<close> is a coroutine.  \<open>task\<close> is its control point: at the test of
  \<^verbatim>\<open>while self._running\<close> (where it also starts), inside the \<^verbatim>\<open>for\<close> loop with the
  edges still to be perturbed, in \<^verbatim>\<open>await asyncio.sleep(5)\<close>, returned, or ended by an
  exception.  \<open>updater_step\<close> is one step of the coroutine: the loop test, the body of
  the \<^verbatim>\<open>for\<close> loop for one edge, the start of the sleep after the last edge, the
  wake-up.  The flag is read at the loop test only.
\<close>

datatype task = AtLoopTest | InPass "(string \<times> string) list" | Sleeping | Returned | Raised py_error

type_synonym world = "task \<times> NetworkSimulator \<times> rng"


text \<open>
  Under \<^verbatim>\<open>asyncio\<close> the coroutine runs from one \<^verbatim>\<open>await\<close> to the next without
  yielding: resumed from the sleep (or started), it tests the flag and either returns or
  runs one whole pass and sleeps again.  \<open>update_latencies_resume\<close> is one such
  resumption.
\<close>

definition run_from_test :: "NetworkSimulator \<Rightarrow> rng \<Rightarrow> world" where
  "run_from_test s r =
     (if running s then
        (case perturb_pass s r of
           (None, s', r') \<Rightarrow> (Sleeping, s', r')
         | (Some e, s', r') \<Rightarrow> (Raised e, s', r'))
      else (Returned, s, r))"

definition update_latencies_resume :: "world \<Rightarrow> world" where
  "update_latencies_resume w =
     (case w of
        (Sleeping, s, r) \<Rightarrow> run_from_test s r
      | (AtLoopTest, s, r) \<Rightarrow> run_from_test s r
      | _ \<Rightarrow> w)"

definition stop :: "NetworkSimulator \<Rightarrow> NetworkSimulator" where
  "stop s = s\<lparr> running := False \<rparr>"

text \<open>
  An \<^verbatim>\<open>await asyncio.sleep(...)\<close> in a query lets the updater run; \<open>k\<close> is the number
  of times it is resumed meanwhile.
\<close>

definition other_tasks :: "nat \<Rightarrow> world \<Rightarrow> world" where
  "other_tasks k w = (update_latencies_resume ^^ k) w"

section \<open>Path resolution\<close>

subsection \<open>Shortest paths of the graph library\<close>

text \<open>
  \<^verbatim>\<open>nx.shortest_path(G, source, target, weight)\<close> is library code that is not part of
  the program.  The program is therefore modelled over an arbitrary routine of the type
  \<open>shortest_path_routine\<close>, and what the library documents about it is the predicate
  \<open>nx_contract\<close> of the section on paths below.  Which of several paths of equal weight
  the library returns is left open.

  That the contract can be met is shown by \<open>reference_shortest_path\<close>, Dijkstra's
  algorithm written out: the table maps each node reached so far to its distance and to
  the path that realises it.
\<close>

type_synonym shortest_path_routine = "int nx_graph \<Rightarrow> string \<Rightarrow> string \<Rightarrow> py_error + string list"

type_synonym dtable = "string \<rightharpoonup> int \<times> string list"

definition fringe :: "string list \<Rightarrow> dtable \<Rightarrow> string list \<Rightarrow> (string \<times> int \<times> string list) list" where
  "fringe ns tab fin =
     List.map_filter
       (\<lambda>n. if n \<in> set fin then None
            else (case tab n of None \<Rightarrow> None | Some (d, p) \<Rightarrow> Some (n, d, p))) ns"

fun least_entry :: "(string \<times> int \<times> string list) list \<Rightarrow> (string \<times> int \<times> string list) option" where
  "least_entry [] = None"
| "least_entry (e # es) =
     (case least_entry es of
        None \<Rightarrow> Some e
      | Some m \<Rightarrow> if fst (snd e) \<le> fst (snd m) then Some e else Some m)"

definition relax_edge ::
  "int \<Rightarrow> string list \<Rightarrow> string list \<Rightarrow> string \<times> int \<Rightarrow> dtable \<Rightarrow> dtable" where
  "relax_edge du pu fin e tab =
     (case e of (v, w) \<Rightarrow>
        if v \<in> set fin then tab
        else (case tab v of
                None \<Rightarrow> tab(v \<mapsto> (du + w, pu @ [v]))
              | Some (dv, pv) \<Rightarrow>
                  if du + w < dv then tab(v \<mapsto> (du + w, pu @ [v])) else tab))"

fun relax :: "int \<Rightarrow> string list \<Rightarrow> string list \<Rightarrow> (string \<times> int) list \<Rightarrow> dtable \<Rightarrow> dtable" where
  "relax du pu fin [] tab = tab"
| "relax du pu fin (e # es) tab = relax du pu fin es (relax_edge du pu fin e tab)"

lemma least_entry_mem: "least_entry es = Some e \<Longrightarrow> e \<in> set es"
  by (induction es arbitrary: e) (auto split: option.splits if_splits)

lemma fringe_mem:
  "(u, d, p) \<in> set (fringe ns tab fin) \<longleftrightarrow> u \<in> set ns \<and> u \<notin> set fin \<and> tab u = Some (d, p)"
  unfolding fringe_def by (induction ns) (auto split: if_splits option.splits)

lemma unfinished_decreases:
  assumes "u \<in> set ns" "u \<notin> set fin"
  shows "length (filter (\<lambda>n. n \<notin> set (u # fin)) ns) < length (filter (\<lambda>n. n \<notin> set fin) ns)"
proof -
  have "filter (\<lambda>n. n \<notin> set (u # fin)) ns = filter (\<lambda>n. n \<noteq> u) (filter (\<lambda>n. n \<notin> set fin) ns)"
    by (simp add: conj_commute)
  moreover have "u \<in> set (filter (\<lambda>n. n \<notin> set fin) ns)"
    using assms by simp
  ultimately show ?thesis
    by (metis (mono_tags, lifting) length_filter_less)
qed

function dijkstra_loop ::
  "int nx_graph \<Rightarrow> string \<Rightarrow> dtable \<Rightarrow> string list \<Rightarrow> (int \<times> string list) option" where
  "dijkstra_loop g target tab fin =
     (case least_entry (fringe (map fst g) tab fin) of
        None \<Rightarrow> None
      | Some (u, du, pu) \<Rightarrow>
          if u = target then Some (du, pu)
          else dijkstra_loop g target (relax du pu (u # fin) (nx_adj g u) tab) (u # fin))"
  by pat_completeness auto
termination
proof (relation "measure (\<lambda>(g, target, tab, fin). length (filter (\<lambda>n. n \<notin> set fin) (map fst g)))")
  show "wf (measure (\<lambda>(g, target, tab, fin). length (filter (\<lambda>n. n \<notin> set fin) (map fst g))))"
    by simp
next
  fix g :: "int nx_graph" and target :: string and tab :: dtable and fin :: "string list"
    and x2 u y du pu
  assume "least_entry (fringe (map fst g) tab fin) = Some x2" "(u, y) = x2" "(du, pu) = y"
  then have "(u, du, pu) \<in> set (fringe (map fst g) tab fin)"
    using least_entry_mem by blast
  then have "u \<in> set (map fst g)" "u \<notin> set fin"
    by (simp_all add: fringe_mem)
  then show "((g, target, relax du pu (u # fin) (nx_adj g u) tab, u # fin), g, target, tab, fin)
      \<in> measure (\<lambda>(g, target, tab, fin). length (filter (\<lambda>n. n \<notin> set fin) (map fst g)))"
    using unfinished_decreases [of u "map fst g" fin] by simp
qed

declare dijkstra_loop.simps [simp del]

definition reference_shortest_path :: "int nx_graph \<Rightarrow> string \<Rightarrow> string \<Rightarrow> py_error + string list" where
  "reference_shortest_path g source target =
     (if \<not> nx_has_node g source \<or> \<not> nx_has_node g target then Inl NodeNotFound
      else if source = target then Inr [source]
      else (case dijkstra_loop g target [source \<mapsto> (0, [source])] [] of
              None \<Rightarrow> Inl NetworkXNoPath
            | Some (d, path) \<Rightarrow> Inr path))"

subsection \<open>\<^verbatim>\<open>get_ospf_path\<close>\<close>

fun build_ospf_graph ::
  "(string \<times> string) list \<Rightarrow> (string \<times> string \<rightharpoonup> int) \<Rightarrow> int nx_graph \<Rightarrow> py_error + int nx_graph" where
  "build_ospf_graph [] costs g = Inr g"
| "build_ospf_graph (edge # rest) costs g =
     (case costs edge of
        None \<Rightarrow> Inl KeyError
      | Some c \<Rightarrow> build_ospf_graph rest costs (nx_add_edge (fst edge) (snd edge) c g))"

definition no_path_message :: "string \<Rightarrow> string \<Rightarrow> string" where
  "no_path_message source destination =
     ''No OSPF path found between '' @ source @ '' and '' @ destination"

definition get_ospf_path ::
  "shortest_path_routine \<Rightarrow> NetworkSimulator \<Rightarrow> string \<Rightarrow> string \<Rightarrow> py_error + string list" where
  "get_ospf_path shortest_path s source destination =
     (case build_ospf_graph (nx_edges (graph s)) (ospf_costs s) [] of
        Inl e \<Rightarrow> Inl e
      | Inr ospf_graph \<Rightarrow>
          (case shortest_path ospf_graph source destination of
             Inl NetworkXNoPath \<Rightarrow> Inl (ValueError (no_path_message source destination))
           | Inl e \<Rightarrow> Inl e
           | Inr path \<Rightarrow> Inr path))"

section \<open>Probes\<close>

definition unknown_node_message :: string where
  "unknown_node_message = ''Source or destination node not found''"

text \<open>
  The sum over the consecutive pairs of the path; \<open>None\<close> is the \<^verbatim>\<open>KeyError\<close> of a
  pair that has no latency.
\<close>

fun total_latency :: "(string \<times> string \<rightharpoonup> real) \<Rightarrow> string list \<Rightarrow> real option" where
  "total_latency lat (a # b # rest) =
     (case lat (a, b) of
        None \<Rightarrow> None
      | Some l \<Rightarrow> (case total_latency lat (b # rest) of None \<Rightarrow> None | Some t \<Rightarrow> Some (l + t)))"
| "total_latency lat [a] = Some 0"
| "total_latency lat [] = Some 0"

text \<open>
  The echo loop of \<^verbatim>\<open>ping\<close>.  \<open>n\<close> echoes remain, \<open>i\<close> is the index of the next one
  and \<open>sched i\<close> the number of resumptions of the updater during the sleep that ends
  echo \<open>i\<close>.  A lost echo and a failed one record \<open>None\<close> and do not sleep.
\<close>

fun ping_echoes ::
  "nat \<Rightarrow> nat \<Rightarrow> (nat \<Rightarrow> nat) \<Rightarrow> string list \<Rightarrow> world \<Rightarrow> real option list \<times> world" where
  "ping_echoes 0 i sched path w = ([], w)"
| "ping_echoes (Suc n) i sched path (t, s, r) =
     (let (x, r1) = random_random r in
      if x < 0.01 then
        (let (rtts, w') = ping_echoes n (Suc i) sched path (t, s, r1) in (None # rtts, w'))
      else
        (case total_latency (latencies s) path of
           None \<Rightarrow>
             (let (rtts, w') = ping_echoes n (Suc i) sched path (t, s, r1) in (None # rtts, w'))
         | Some path_total \<Rightarrow>
             (let (jitter, r2) = random_uniform (- 2) 2 r1;
                  rtt = path_total + jitter;
                  (rtts, w') = ping_echoes n (Suc i) sched path (other_tasks (sched i) (t, s, r2))
              in (Some (max 0 rtt) # rtts, w'))))"

definition ping ::
  "shortest_path_routine \<Rightarrow> (nat \<Rightarrow> nat) \<Rightarrow> world \<Rightarrow> string \<Rightarrow> string \<Rightarrow> int option
     \<Rightarrow> (py_error + real option list \<times> string list) \<times> world" where
  "ping shortest_path sched w source destination count_arg =
     (let count = (case count_arg of None \<Rightarrow> 4 | Some c \<Rightarrow> c);
          s = fst (snd w)
      in if source \<notin> fst ` set (nodes s) \<or> destination \<notin> fst ` set (nodes s)
         then (Inl (ValueError unknown_node_message), w)
         else (case get_ospf_path shortest_path s source destination of
                 Inl e \<Rightarrow> (Inl e, w)
               | Inr path \<Rightarrow>
                   (let (rtts, w') = ping_echoes (nat count) 0 sched path w
                    in (Inr (rtts, path), w'))))"

text \<open>
  The hop loop of \<^verbatim>\<open>traceroute\<close>: hop \<open>i\<close> reads the latency of the edge to the next
  node as it is then, and sleeps.
\<close>

fun trace_hops ::
  "nat \<Rightarrow> (nat \<Rightarrow> nat) \<Rightarrow> string list \<Rightarrow> world \<Rightarrow> (py_error + (string \<times> real) list) \<times> world" where
  "trace_hops i sched (current # next_hop # rest) (t, s, r) =
     (case latencies s (current, next_hop) of
        None \<Rightarrow> (Inl KeyError, (t, s, r))
      | Some latency \<Rightarrow>
          (case trace_hops (Suc i) sched (next_hop # rest) (other_tasks (sched i) (t, s, r)) of
             (Inl e, w') \<Rightarrow> (Inl e, w')
           | (Inr hops, w') \<Rightarrow> (Inr ((current, latency) # hops), w')))"
| "trace_hops i sched [a] w = (Inr [], w)"
| "trace_hops i sched [] w = (Inr [], w)"

definition traceroute ::
  "shortest_path_routine \<Rightarrow> (nat \<Rightarrow> nat) \<Rightarrow> world \<Rightarrow> string \<Rightarrow> string
     \<Rightarrow> (py_error + (string \<times> real) list \<times> string list) \<times> world" where
  "traceroute shortest_path sched w source destination =
     (let s = fst (snd w)
      in if source \<notin> fst ` set (nodes s) \<or> destination \<notin> fst ` set (nodes s)
         then (Inl (ValueError unknown_node_message), w)
         else (case get_ospf_path shortest_path s source destination of
                 Inl e \<Rightarrow> (Inr ([], []), w)
               | Inr path \<Rightarrow>
                   (case trace_hops 0 sched path w of
                      (Inl e, w') \<Rightarrow> (Inr ([], []), w')
                    | (Inr hops, w') \<Rightarrow> (Inr (hops @ [(destination, 0)], path), w'))))"

section \<open>Reachable states\<close>

text \<open>
  \<^verbatim>\<open>random.random()\<close> returns values in \<open>[0, 1)\<close>.  A state is reachable when it
  is built by the constructor and then changed by whole passes of the updater and by
  \<^verbatim>\<open>stop()\<close>.
\<close>

definition valid_rng :: "rng \<Rightarrow> bool" where
  "valid_rng r = (\<forall>x \<in> sset r. 0 \<le> x \<and> x < 1)"

definition sym_table :: "(string \<times> string \<rightharpoonup> 'a) \<Rightarrow> bool" where
  "sym_table m = (\<forall>u v. m (u, v) = m (v, u))"

definition cost_tracks :: "(string \<times> string \<rightharpoonup> real) \<Rightarrow> (string \<times> string \<rightharpoonup> int) \<Rightarrow> bool" where
  "cost_tracks lat cost = (\<forall>k. cost k = map_option (\<lambda>l. py_int (100 / (l / 10))) (lat k))"

definition positive_table :: "(string \<times> string \<rightharpoonup> real) \<Rightarrow> bool" where
  "positive_table lat = (\<forall>k l. lat k = Some l \<longrightarrow> 0 < l)"

definition metrics_ok :: "NetworkSimulator \<Rightarrow> bool" where
  "metrics_ok s =
     (sym_table (latencies s) \<and> sym_table (ospf_costs s) \<and>
      cost_tracks (latencies s) (ospf_costs s) \<and> positive_table (latencies s))"

definition flip :: "string \<times> string \<Rightarrow> string \<times> string" where
  "flip e = (snd e, fst e)"

definition topology :: "unit nx_graph" where
  "topology = fold (\<lambda>(u, v). nx_add_edge u v ()) connections (graph (create_nodes node_positions blank))"

definition node_names :: "string list" where
  "node_names = map fst node_positions"

definition edge_keys :: "(string \<times> string) set" where
  "edge_keys = set connections \<union> flip ` set connections"

inductive reachable :: "NetworkSimulator \<Rightarrow> bool" where
  construct: "valid_rng r \<Longrightarrow> init r = Inr (s, r') \<Longrightarrow> reachable s"
| perturb: "reachable s \<Longrightarrow> valid_rng r \<Longrightarrow> perturb_pass s r = (None, s', r') \<Longrightarrow> reachable s'"
| stopped: "reachable s \<Longrightarrow> reachable (stop s)"

definition state_ok :: "NetworkSimulator \<Rightarrow> bool" where
  "state_ok s =
     (metrics_ok s \<and> graph s = topology \<and> map fst (nodes s) = node_names \<and>
      dom (latencies s) = edge_keys)"

text \<open>How often a list of edges touches a key of the metric table.\<close>

definition hits :: "(string \<times> string) list \<Rightarrow> string \<times> string \<Rightarrow> nat" where
  "hits es k = length (filter (\<lambda>e. e = k \<or> flip e = k) es)"

section \<open>Paths and their cost\<close>

text \<open>
  A walk of a graph is a non-empty list of nodes in which each node is a neighbour of the
  one before it.  Its cost under a weight function is the sum over its consecutive pairs.
  \<open>weights_ok g c\<close> says that every weight stored in \<open>g\<close> is the value of \<open>c\<close>, is not
  negative, and leads to a node of \<open>g\<close>.  \<open>dijkstra_inv\<close> is the invariant of the loop of
  Dijkstra's algorithm: every table entry is realised by a walk from the source, entries
  of finished nodes are optimal, and the edges out of finished nodes have been relaxed.
\<close>

fun walk :: "'a nx_graph \<Rightarrow> string list \<Rightarrow> bool" where
  "walk g [] = False"
| "walk g [a] = nx_has_node g a"
| "walk g (a # b # rest) = (b \<in> fst ` set (nx_adj g a) \<and> walk g (b # rest))"

fun walk_cost :: "(string \<Rightarrow> string \<Rightarrow> int) \<Rightarrow> string list \<Rightarrow> int" where
  "walk_cost c (a # b # rest) = c a b + walk_cost c (b # rest)"
| "walk_cost c [a] = 0"
| "walk_cost c [] = 0"

definition weights_ok :: "int nx_graph \<Rightarrow> (string \<Rightarrow> string \<Rightarrow> int) \<Rightarrow> bool" where
  "weights_ok g c =
     (\<forall>u v w. (v, w) \<in> set (nx_adj g u) \<longrightarrow> w = c u v \<and> 0 \<le> w \<and> nx_has_node g v)"

definition dijkstra_inv ::
  "int nx_graph \<Rightarrow> (string \<Rightarrow> string \<Rightarrow> int) \<Rightarrow> string \<Rightarrow> dtable \<Rightarrow> string list \<Rightarrow> bool" where
  "dijkstra_inv g c s tab fin =
     ((\<forall>v d p. tab v = Some (d, p) \<longrightarrow> walk g p \<and> hd p = s \<and> last p = v \<and> walk_cost c p = d) \<and>
      (\<forall>v d p q. v \<in> set fin \<and> tab v = Some (d, p) \<and> walk g q \<and> hd q = s \<and> last q = v
          \<longrightarrow> d \<le> walk_cost c q) \<and>
      (\<forall>x y w. x \<in> set fin \<and> (y, w) \<in> set (nx_adj g x) \<and> y \<notin> set fin
          \<longrightarrow> (\<exists>dx px dy py. tab x = Some (dx, px) \<and> tab y = Some (dy, py) \<and> dy \<le> dx + w)) \<and>
      (\<forall>v \<in> set fin. tab v \<noteq> None) \<and>
      (s \<in> set fin \<or> (fin = [] \<and> tab = [s \<mapsto> (0, [s])])))"

text \<open>
  The contract of \<^verbatim>\<open>nx.shortest_path\<close> with a weight: \<^verbatim>\<open>NodeNotFound\<close> when an
  endpoint is not a node of the graph; the one-node path when the endpoints coincide;
  and, on a graph without negative weights, \<^verbatim>\<open>NetworkXNoPath\<close> when no walk joins the
  endpoints, otherwise a walk between them of least total weight.
\<close>

definition nx_contract :: "shortest_path_routine \<Rightarrow> bool" where
  "nx_contract sp =
     ((\<forall>g s t. \<not> nx_has_node g s \<or> \<not> nx_has_node g t \<longrightarrow> sp g s t = Inl NodeNotFound) \<and>
      (\<forall>g s. nx_has_node g s \<longrightarrow> sp g s s = Inr [s]) \<and>
      (\<forall>g c s t. weights_ok g c \<and> nx_has_node g s \<and> nx_has_node g t \<longrightarrow>
         (case sp g s t of
            Inl e \<Rightarrow> e = NetworkXNoPath \<and> (\<forall>q. \<not> (walk g q \<and> hd q = s \<and> last q = t))
          | Inr p \<Rightarrow> walk g p \<and> hd p = s \<and> last p = t \<and>
              (\<forall>q. walk g q \<and> hd q = s \<and> last q = t \<longrightarrow> walk_cost c p \<le> walk_cost c q))))"

section \<open>Configurations of the updater\<close>



definition example_sim :: NetworkSimulator where
  "example_sim = fst (projr (init (sconst (1 / 2))))"


section \<open>The routing graph of a reachable state\<close>

text \<open>
  \<open>edge_cost s u v\<close> is the entry of \<^verbatim>\<open>ospf_costs\<close> for the key \<open>(u, v)\<close> and
  \<open>path_cost\<close> the sum of these entries along a path.  \<open>topology_walk\<close> holds of the
  non-empty node lists whose consecutive pairs are connections of the fixed topology, in
  either direction.  \<open>routing_literal s\<close> is the graph that \<^verbatim>\<open>get_ospf_path\<close> builds
  in a reachable state, written out.
\<close>

definition edge_cost :: "NetworkSimulator \<Rightarrow> string \<Rightarrow> string \<Rightarrow> int" where
  "edge_cost s u v = (case ospf_costs s (u, v) of None \<Rightarrow> 0 | Some c \<Rightarrow> c)"

definition path_cost :: "NetworkSimulator \<Rightarrow> string list \<Rightarrow> int" where
  "path_cost s p = walk_cost (edge_cost s) p"

fun topology_walk :: "string list \<Rightarrow> bool" where
  "topology_walk [] = False"
| "topology_walk [a] = (a \<in> set node_names)"
| "topology_walk (a # b # rest) = ((a, b) \<in> edge_keys \<and> topology_walk (b # rest))"

definition routing_literal :: "NetworkSimulator \<Rightarrow> int nx_graph" where
  "routing_literal s =
     [(''R1'', [(''R2'', edge_cost s ''R1'' ''R2''), (''R4'', edge_cost s ''R1'' ''R4''),
                (''N1'', edge_cost s ''R1'' ''N1'')]),
      (''R2'', [(''R1'', edge_cost s ''R1'' ''R2''), (''R3'', edge_cost s ''R2'' ''R3''),
                (''N2'', edge_cost s ''R2'' ''N2'')]),
      (''R4'', [(''R1'', edge_cost s ''R1'' ''R4''), (''R3'', edge_cost s ''R3'' ''R4'')]),
      (''N1'', [(''R1'', edge_cost s ''R1'' ''N1'')]),
      (''R3'', [(''R2'', edge_cost s ''R2'' ''R3''), (''R4'', edge_cost s ''R3'' ''R4''),
                (''N3'', edge_cost s ''R3'' ''N3'')]),
      (''N2'', [(''R2'', edge_cost s ''R2'' ''N2'')]),
      (''N3'', [(''R3'', edge_cost s ''R3'' ''N3'')])]"

section \<open>Properties\<close>

subsection \<open>Auxiliary facts\<close>

lemma ping_echoes_length: "length (fst (ping_echoes n i sched path w)) = n"
proof (induction n arbitrary: i w)
  case 0
  then show ?case by simp
next
  case (Suc n)
  obtain t s r where w: "w = (t, s, r)" by (cases w) auto
  show ?case
    unfolding w
    by (simp add: Let_def split_beta Suc.IH split: option.splits)
qed

lemma ping_echoes_nonneg:
  "x \<in> set (fst (ping_echoes n i sched path w)) \<Longrightarrow> x = None \<or> (\<exists>v. x = Some v \<and> 0 \<le> v)"
proof (induction n arbitrary: i w)
  case 0
  then show ?case by simp
next
  case (Suc n)
  obtain t s r where w: "w = (t, s, r)" by (cases w) auto
  let ?skip = "ping_echoes n (Suc i) sched path (t, s, snd (random_random r))"
  let ?next = "ping_echoes n (Suc i) sched path
      (other_tasks (sched i) (t, s, snd (random_uniform (- 2) 2 (snd (random_random r)))))"
  from Suc.prems have "x = None \<or> (\<exists>v. x = Some (max 0 v)) \<or> x \<in> set (fst ?skip) \<or> x \<in> set (fst ?next)"
    unfolding w by (simp add: Let_def split_beta split: option.splits if_splits) blast+
  then consider (lost) "x = None" | (echo) v where "x = Some (max 0 v)"
    | (skip) "x \<in> set (fst ?skip)" | (later) "x \<in> set (fst ?next)"
    by blast
  then show ?case
  proof cases
    case lost
    then show ?thesis by simp
  next
    case echo
    then show ?thesis by simp
  next
    case skip
    then show ?thesis by (rule Suc.IH)
  next
    case later
    then show ?thesis by (rule Suc.IH)
  qed
qed

lemma stop_fields:
  "latencies (stop s) = latencies s" "ospf_costs (stop s) = ospf_costs s"
  "graph (stop s) = graph s" "nodes (stop s) = nodes s" "running (stop s) = False"
  by (simp_all add: stop_def)


lemma valid_rng_stl: "valid_rng r \<Longrightarrow> valid_rng (stl r)"
  unfolding valid_rng_def using stl_sset by fastforce

lemma valid_rng_shd: "valid_rng r \<Longrightarrow> 0 \<le> shd r \<and> shd r < 1"
  unfolding valid_rng_def using shd_sset by blast

lemma upd2_apply: "(m(k1 \<mapsto> x, k2 \<mapsto> x)) k = (if k = k1 \<or> k = k2 then Some x else m k)"
  by simp

lemma sym_table_upd:
  assumes "sym_table m"
  shows "sym_table (m((u, v) \<mapsto> x, (v, u) \<mapsto> x))"
  unfolding sym_table_def
proof (intro allI)
  fix a b
  have h: "m (a, b) = m (b, a)"
    by (rule assms [unfolded sym_table_def, rule_format])
  have c: "((a, b) = (u, v) \<or> (a, b) = (v, u)) = ((b, a) = (u, v) \<or> (b, a) = (v, u))"
    by blast
  show "(m((u, v) \<mapsto> x, (v, u) \<mapsto> x)) (a, b) = (m((u, v) \<mapsto> x, (v, u) \<mapsto> x)) (b, a)"
    by (simp only: upd2_apply c h)
qed

lemma cost_tracks_upd:
  "cost_tracks lat cost \<Longrightarrow> c = py_int (100 / (l / 10)) \<Longrightarrow>
   cost_tracks (lat(k1 \<mapsto> l, k2 \<mapsto> l)) (cost(k1 \<mapsto> c, k2 \<mapsto> c))"
  unfolding cost_tracks_def by simp

lemma positive_table_upd:
  "positive_table lat \<Longrightarrow> 0 < l \<Longrightarrow> positive_table (lat(k1 \<mapsto> l, k2 \<mapsto> l))"
  unfolding positive_table_def by simp

lemma link_cost_pos: "0 < l \<Longrightarrow> link_cost l = Inr (py_int (100 / (l / 10)))"
  by (simp add: link_cost_def)

lemma init_latency_pos: "valid_rng r \<Longrightarrow> 0 < 10 + (50 - 10) * shd r"
  using valid_rng_shd [of r] by simp

lemma factor_pos: "valid_rng r \<Longrightarrow> 0 < 0.9 + (1.1 - 0.9) * shd r"
  using valid_rng_shd [of r] by simp

lemma create_edges_step:
  "0 < 10 + (50 - 10) * shd r \<Longrightarrow>
   create_edges ((u, v) # cs) s r =
   create_edges cs
     (s\<lparr> graph := nx_add_edge u v () (graph s),
         latencies := (latencies s)((u, v) \<mapsto> 10 + (50 - 10) * shd r, (v, u) \<mapsto> 10 + (50 - 10) * shd r),
         ospf_costs := (ospf_costs s)((u, v) \<mapsto> py_int (100 / ((10 + (50 - 10) * shd r) / 10)),
                                      (v, u) \<mapsto> py_int (100 / ((10 + (50 - 10) * shd r) / 10))) \<rparr>) (stl r)"
  by (simp add: Let_def random_uniform_def link_cost_pos del: link_cost_def)

lemma perturb_edges_step:
  "latencies s (u, v) = Some l \<Longrightarrow> 0 < l * (0.9 + (1.1 - 0.9) * shd r) \<Longrightarrow>
   perturb_edges ((u, v) # es) s r =
   perturb_edges es
     (s\<lparr> latencies := (latencies s)((u, v) \<mapsto> l * (0.9 + (1.1 - 0.9) * shd r),
                                     (v, u) \<mapsto> l * (0.9 + (1.1 - 0.9) * shd r)),
         ospf_costs := (ospf_costs s)((u, v) \<mapsto> py_int (100 / (l * (0.9 + (1.1 - 0.9) * shd r) / 10)),
                                      (v, u) \<mapsto> py_int (100 / (l * (0.9 + (1.1 - 0.9) * shd r) / 10))) \<rparr>) (stl r)"
  by (simp add: perturb_edge_def Let_def random_uniform_def link_cost_pos)

lemma metrics_ok_upd:
  assumes "metrics_ok s" "0 < l" "c = py_int (100 / (l / 10))"
    and "latencies s' = (latencies s)((u, v) \<mapsto> l, (v, u) \<mapsto> l)"
    and "ospf_costs s' = (ospf_costs s)((u, v) \<mapsto> c, (v, u) \<mapsto> c)"
  shows "metrics_ok s'"
proof -
  have "sym_table (latencies s')" "sym_table (ospf_costs s')"
    using assms(1) unfolding assms(4,5) metrics_ok_def by (simp_all only: sym_table_upd)
  moreover have "cost_tracks (latencies s') (ospf_costs s')"
    unfolding assms(4,5) using assms(1,3) unfolding metrics_ok_def
    by (intro cost_tracks_upd) simp_all
  moreover have "positive_table (latencies s')"
    unfolding assms(4) using assms(1,2) unfolding metrics_ok_def
    by (intro positive_table_upd) simp_all
  ultimately show ?thesis unfolding metrics_ok_def by simp
qed

lemma create_edges_inv:
  assumes "metrics_ok s" "valid_rng r"
  shows "\<exists>s' r'. create_edges cs s r = (None, s', r') \<and> metrics_ok s' \<and> valid_rng r' \<and>
         graph s' = fold (\<lambda>(u, v). nx_add_edge u v ()) cs (graph s) \<and>
         nodes s' = nodes s \<and> running s' = running s \<and>
         dom (latencies s') = dom (latencies s) \<union> set cs \<union> flip ` set cs"
  using assms
proof (induction cs arbitrary: s r)
  case Nil
  then show ?case by simp
next
  case (Cons e cs)
  obtain u v where e: "e = (u, v)" by (cases e)
  let ?l = "10 + (50 - 10) * shd r"
  let ?c = "py_int (100 / (?l / 10))"
  let ?s3 = "s\<lparr> graph := nx_add_edge u v () (graph s),
      latencies := (latencies s)((u, v) \<mapsto> ?l, (v, u) \<mapsto> ?l),
      ospf_costs := (ospf_costs s)((u, v) \<mapsto> ?c, (v, u) \<mapsto> ?c) \<rparr>"
  have lpos: "0 < ?l" by (rule init_latency_pos [OF Cons.prems(2)])
  have step: "create_edges (e # cs) s r = create_edges cs ?s3 (stl r)"
    unfolding e by (rule create_edges_step [OF lpos])
  have ok3: "metrics_ok ?s3"
    by (rule metrics_ok_upd [OF Cons.prems(1) lpos refl]) simp_all
  from Cons.IH [OF ok3 valid_rng_stl [OF Cons.prems(2)]]
  obtain s' r' where run: "create_edges cs ?s3 (stl r) = (None, s', r')"
    and ok: "metrics_ok s'" "valid_rng r'"
    and g: "graph s' = fold (\<lambda>(u, v). nx_add_edge u v ()) cs (graph ?s3)"
    and n: "nodes s' = nodes ?s3" "running s' = running ?s3"
    and d: "dom (latencies s') = dom (latencies ?s3) \<union> set cs \<union> flip ` set cs"
    by blast
  have g': "graph s' = fold (\<lambda>(u, v). nx_add_edge u v ()) (e # cs) (graph s)"
    using g by (simp add: e)
  have "dom (latencies ?s3) = insert e (insert (flip e) (dom (latencies s)))"
    by (simp add: e flip_def insert_commute)
  then have d': "dom (latencies s') = dom (latencies s) \<union> set (e # cs) \<union> flip ` set (e # cs)"
    using d by auto
  have n': "nodes s' = nodes s" "running s' = running s"
    using n by simp_all
  show ?case
    using step run ok g' n' d' by simp
qed

lemma perturb_edges_inv:
  assumes "metrics_ok s" "valid_rng r" "set es \<subseteq> dom (latencies s)"
  shows "\<exists>s' r'. perturb_edges es s r = (None, s', r') \<and> metrics_ok s' \<and> valid_rng r' \<and>
         graph s' = graph s \<and> nodes s' = nodes s \<and> running s' = running s \<and>
         dom (latencies s') = dom (latencies s)"
  using assms
proof (induction es arbitrary: s r)
  case Nil
  then show ?case by simp
next
  case (Cons e es)
  obtain u v where e: "e = (u, v)" by (cases e)
  from Cons.prems(3) obtain l where l: "latencies s (u, v) = Some l"
    unfolding e by auto
  have "latencies s (v, u) = latencies s (u, v)"
    using Cons.prems(1) unfolding metrics_ok_def sym_table_def by blast
  then have vu: "(v, u) \<in> dom (latencies s)" using l by (simp add: domI)
  have uv: "(u, v) \<in> dom (latencies s)" using l by (simp add: domI)
  have "0 < l"
    using Cons.prems(1) l unfolding metrics_ok_def positive_table_def by blast
  then have lpos: "0 < l * (0.9 + (1.1 - 0.9) * shd r)"
    using factor_pos [OF Cons.prems(2)] by (rule mult_pos_pos)
  let ?l = "l * (0.9 + (1.1 - 0.9) * shd r)"
  let ?c = "py_int (100 / (?l / 10))"
  let ?s3 = "s\<lparr> latencies := (latencies s)((u, v) \<mapsto> ?l, (v, u) \<mapsto> ?l),
      ospf_costs := (ospf_costs s)((u, v) \<mapsto> ?c, (v, u) \<mapsto> ?c) \<rparr>"
  have step: "perturb_edges (e # es) s r = perturb_edges es ?s3 (stl r)"
    unfolding e by (rule perturb_edges_step [OF l lpos])
  have ok3: "metrics_ok ?s3"
    by (rule metrics_ok_upd [OF Cons.prems(1) lpos refl]) simp_all
  have "dom (latencies ?s3) = insert (u, v) (insert (v, u) (dom (latencies s)))"
    by (simp add: insert_commute)
  then have d3: "dom (latencies ?s3) = dom (latencies s)"
    using uv vu by (simp add: insert_absorb)
  have sub: "set es \<subseteq> dom (latencies ?s3)"
    using Cons.prems(3) unfolding d3 by simp
  from Cons.IH [OF ok3 valid_rng_stl [OF Cons.prems(2)] sub]
  obtain s' r' where run: "perturb_edges es ?s3 (stl r) = (None, s', r')"
    and ok: "metrics_ok s'" "valid_rng r'"
    and g: "graph s' = graph ?s3" "nodes s' = nodes ?s3" "running s' = running ?s3"
    and d: "dom (latencies s') = dom (latencies ?s3)"
    by blast
  have g': "graph s' = graph s" "nodes s' = nodes s" "running s' = running s"
    using g by simp_all
  show ?case
    using step run ok g' d d3 by simp
qed

lemma created_graph:
  "graph (create_nodes node_positions blank) =
     [(''R1'', []), (''R2'', []), (''R3'', []), (''R4'', []), (''N1'', []), (''N2'', []), (''N3'', [])]"
  by (simp add: node_positions_def blank_def nx_add_node_def nx_has_node_def)

lemma topology_eq:
  "topology =
     [(''R1'', [(''R2'', ()), (''R4'', ()), (''N1'', ())]),
      (''R2'', [(''R1'', ()), (''R3'', ()), (''N2'', ())]),
      (''R3'', [(''R2'', ()), (''R4'', ()), (''N3'', ())]),
      (''R4'', [(''R3'', ()), (''R1'', ())]),
      (''N1'', [(''R1'', ())]),
      (''N2'', [(''R2'', ())]),
      (''N3'', [(''R3'', ())])]"
  unfolding topology_def created_graph
  by (simp add: connections_def nx_add_edge_def nx_add_node_def nx_has_node_def nx_adj_def Let_def)

lemma topology_edges:
  "nx_edges topology =
     [(''R1'', ''R2''), (''R1'', ''R4''), (''R1'', ''N1''), (''R2'', ''R3''),
      (''R2'', ''N2''), (''R3'', ''R4''), (''R3'', ''N3'')]"
  unfolding topology_eq by (simp add: nx_edges_def)

lemma created_names: "map fst (nodes (create_nodes node_positions blank)) = node_names"
  by (simp add: node_names_def node_positions_def blank_def)

lemma create_nodes_tables:
  "latencies (create_nodes ns s) = latencies s \<and> ospf_costs (create_nodes ns s) = ospf_costs s \<and>
   running (create_nodes ns s) = running s"
  by (induction ns s rule: create_nodes.induct) simp_all

lemma edges_in_keys: "set (nx_edges topology) \<subseteq> edge_keys"
  unfolding topology_edges edge_keys_def by (simp add: connections_def flip_def)

lemma metrics_ok_blank: "metrics_ok blank"
  by (simp add: metrics_ok_def sym_table_def cost_tracks_def positive_table_def blank_def)

lemma init_ok:
  assumes "valid_rng r"
  shows "\<exists>s r'. init r = Inr (s, r') \<and> state_ok s \<and> running s \<and> valid_rng r'"
proof -
  let ?s0 = "create_nodes node_positions blank"
  have tabs: "latencies ?s0 = latencies blank" "ospf_costs ?s0 = ospf_costs blank"
    using create_nodes_tables [of node_positions blank] by simp_all
  have "metrics_ok ?s0"
    using metrics_ok_blank unfolding metrics_ok_def tabs .
  from create_edges_inv [OF this assms, of connections]
  obtain s' r' where run: "create_edges connections ?s0 r = (None, s', r')"
    and ok: "metrics_ok s'" "valid_rng r'"
    and g: "graph s' = fold (\<lambda>(u, v). nx_add_edge u v ()) connections (graph ?s0)"
    and n: "nodes s' = nodes ?s0"
    and d: "dom (latencies s') = dom (latencies ?s0) \<union> set connections \<union> flip ` set connections"
    by blast
  have "dom (latencies ?s0) = {}"
    unfolding tabs by (simp add: blank_def)
  then have d': "dom (latencies s') = edge_keys"
    using d by (simp add: edge_keys_def)
  have i: "init r = Inr (s'\<lparr> running := True \<rparr>, r')"
    using run by (simp add: init_def initialize_network_def)
  have "state_ok (s'\<lparr> running := True \<rparr>)"
    using ok(1) g n d' created_names
    by (simp add: state_ok_def metrics_ok_def topology_def)
  then show ?thesis using i ok(2) by simp
qed

lemma pass_ok:
  assumes "state_ok s" "valid_rng r"
  shows "\<exists>s' r'. perturb_pass s r = (None, s', r') \<and> state_ok s' \<and> running s' = running s \<and> valid_rng r'"
proof -
  have sub: "set (nx_edges (graph s)) \<subseteq> dom (latencies s)"
    using assms(1) edges_in_keys by (simp add: state_ok_def)
  have m: "metrics_ok s" using assms(1) by (simp add: state_ok_def)
  from perturb_edges_inv [OF m assms(2) sub]
  obtain s' r' where run: "perturb_edges (nx_edges (graph s)) s r = (None, s', r')"
    and ok: "metrics_ok s'" "valid_rng r'"
    and g: "graph s' = graph s" "nodes s' = nodes s" "running s' = running s"
    and d: "dom (latencies s') = dom (latencies s)"
    by blast
  have "state_ok s'"
    using assms(1) ok(1) g d by (simp add: state_ok_def)
  then show ?thesis
    using run ok(2) g(3) by (simp add: perturb_pass_def)
qed

lemma stop_ok: "state_ok s \<Longrightarrow> state_ok (stop s)"
  by (simp add: state_ok_def metrics_ok_def stop_fields)

lemma reachable_ok: "reachable s \<Longrightarrow> state_ok s"
proof (induction rule: reachable.induct)
  case (construct r s r')
  then show ?case using init_ok [of r] by auto
next
  case (perturb s r s' r')
  then show ?case using pass_ok [of s r] by auto
next
  case (stopped s)
  from stopped.IH show ?case by (rule stop_ok)
qed

lemma constructed_reachable:
  assumes "valid_rng r"
  shows "reachable (fst (projr (init r)))"
proof -
  from init_ok [OF assms] obtain s r' where "init r = Inr (s, r')" by blast
  then show ?thesis using reachable.construct [OF assms] by simp
qed

lemma valid_rng_sconst: "0 \<le> x \<Longrightarrow> x < 1 \<Longrightarrow> valid_rng (sconst x)"
  by (simp add: valid_rng_def)

lemma in_edge_keys:
  "(u, v) \<in> set connections \<or> (v, u) \<in> set connections \<Longrightarrow> (u, v) \<in> edge_keys"
  unfolding edge_keys_def flip_def by force

lemma py_int_floor: "0 < l \<Longrightarrow> py_int (100 / (l / 10)) = \<lfloor>1000 / l\<rfloor>"
  by (simp add: py_int_def)

lemma hits_Cons: "hits (e # es) k = (if e = k \<or> flip e = k then 1 else 0) + hits es k"
  by (simp add: hits_def)

lemma perturb_edges_const:
  assumes "metrics_ok s" "0 \<le> x" "x < 1" "set es \<subseteq> dom (latencies s)"
    and "latencies s k = Some l"
  shows "\<exists>s'. perturb_edges es s (sconst x) = (None, s', sconst x) \<and>
              latencies s' k = Some (l * (0.9 + (1.1 - 0.9) * x) ^ hits es k)"
  using assms(1,4,5)
proof (induction es arbitrary: s l)
  case Nil
  then show ?case by (simp add: hits_def)
next
  case (Cons e es)
  obtain u v where e: "e = (u, v)" by (cases e)
  have vr: "valid_rng (sconst x)" by (rule valid_rng_sconst [OF assms(2,3)])
  from Cons.prems(2) obtain le where le: "latencies s (u, v) = Some le"
    unfolding e by auto
  have sym: "latencies s (v, u) = latencies s (u, v)"
    using Cons.prems(1) unfolding metrics_ok_def sym_table_def by blast
  have "0 < le"
    using Cons.prems(1) le unfolding metrics_ok_def positive_table_def by blast
  then have lpos: "0 < le * (0.9 + (1.1 - 0.9) * shd (sconst x))"
    using factor_pos [OF vr] by (rule mult_pos_pos)
  let ?f = "0.9 + (1.1 - 0.9) * x"
  let ?l = "le * (0.9 + (1.1 - 0.9) * shd (sconst x))"
  let ?c = "py_int (100 / (?l / 10))"
  let ?s3 = "s\<lparr> latencies := (latencies s)((u, v) \<mapsto> ?l, (v, u) \<mapsto> ?l),
      ospf_costs := (ospf_costs s)((u, v) \<mapsto> ?c, (v, u) \<mapsto> ?c) \<rparr>"
  have step: "perturb_edges (e # es) s (sconst x) = perturb_edges es ?s3 (sconst x)"
    unfolding e using perturb_edges_step [OF le lpos, of es] by simp
  have ok3: "metrics_ok ?s3"
    by (rule metrics_ok_upd [OF Cons.prems(1) lpos refl]) simp_all
  have l3: "latencies ?s3 k = (if k = (u, v) \<or> k = (v, u) then Some ?l else latencies s k)"
  proof -
    have "latencies ?s3 = (latencies s)((u, v) \<mapsto> ?l, (v, u) \<mapsto> ?l)" by simp
    then show ?thesis by (simp only: upd2_apply)
  qed
  have sub: "set es \<subseteq> dom (latencies ?s3)"
    using Cons.prems(2) by auto
  show ?case
  proof (cases "e = k \<or> flip e = k")
    case True
    then have k: "k = (u, v) \<or> k = (v, u)" unfolding e flip_def by auto
    then have "le = l" using le sym Cons.prems(3) by auto
    then have "latencies ?s3 k = Some (l * ?f)" unfolding l3 using k by simp
    from Cons.IH [OF ok3 sub this]
    obtain s' where "perturb_edges es ?s3 (sconst x) = (None, s', sconst x)"
      and "latencies s' k = Some (l * ?f * ?f ^ hits es k)" by blast
    then have run: "perturb_edges (e # es) s (sconst x) = (None, s', sconst x)"
      and val: "latencies s' k = Some (l * ?f * ?f ^ hits es k)"
      unfolding step by blast+
    have "l * ?f ^ hits (e # es) k = l * ?f * ?f ^ hits es k"
      unfolding hits_Cons using True by simp
    then have "latencies s' k = Some (l * ?f ^ hits (e # es) k)"
      using val by (simp only:)
    with run show ?thesis by blast
  next
    case False
    then have k: "\<not> (k = (u, v) \<or> k = (v, u))" unfolding e flip_def by auto
    then have "latencies ?s3 k = Some l" unfolding l3 using Cons.prems(3) by simp
    from Cons.IH [OF ok3 sub this]
    obtain s' where "perturb_edges es ?s3 (sconst x) = (None, s', sconst x)"
      and "latencies s' k = Some (l * ?f ^ hits es k)" by blast
    then have run: "perturb_edges (e # es) s (sconst x) = (None, s', sconst x)"
      and val: "latencies s' k = Some (l * ?f ^ hits es k)"
      unfolding step by blast+
    have "hits (e # es) k = hits es k"
      unfolding hits_Cons using False by simp
    then have "latencies s' k = Some (l * ?f ^ hits (e # es) k)"
      using val by (simp only:)
    with run show ?thesis by blast
  qed
qed

lemma create_edges_const:
  assumes "metrics_ok s" "0 \<le> x" "x < 1" "w = 10 + (50 - 10) * x"
    and "k \<in> set cs \<or> flip k \<in> set cs \<or> latencies s k = Some w"
  shows "\<exists>s'. create_edges cs s (sconst x) = (None, s', sconst x) \<and> latencies s' k = Some w"
  using assms(1,5)
proof (induction cs arbitrary: s)
  case Nil
  then show ?case by simp
next
  case (Cons e cs)
  obtain u v where e: "e = (u, v)" by (cases e)
  have vr: "valid_rng (sconst x)" by (rule valid_rng_sconst [OF assms(2,3)])
  let ?l = "10 + (50 - 10) * shd (sconst x)"
  let ?c = "py_int (100 / (?l / 10))"
  let ?s3 = "s\<lparr> graph := nx_add_edge u v () (graph s),
      latencies := (latencies s)((u, v) \<mapsto> ?l, (v, u) \<mapsto> ?l),
      ospf_costs := (ospf_costs s)((u, v) \<mapsto> ?c, (v, u) \<mapsto> ?c) \<rparr>"
  have lpos: "0 < ?l" by (rule init_latency_pos [OF vr])
  have step: "create_edges (e # cs) s (sconst x) = create_edges cs ?s3 (sconst x)"
    unfolding e using create_edges_step [OF lpos, of u v cs s] by simp
  have ok3: "metrics_ok ?s3"
    by (rule metrics_ok_upd [OF Cons.prems(1) lpos refl]) simp_all
  have l3: "latencies ?s3 k = (if k = (u, v) \<or> k = (v, u) then Some w else latencies s k)"
  proof -
    have "latencies ?s3 = (latencies s)((u, v) \<mapsto> w, (v, u) \<mapsto> w)"
      by (simp add: assms(4))
    then show ?thesis by (simp only: upd2_apply)
  qed
  have "k \<in> set cs \<or> flip k \<in> set cs \<or> latencies ?s3 k = Some w"
  proof (cases "k = (u, v) \<or> k = (v, u)")
    case True
    have "latencies ?s3 k = Some w" by (simp only: l3 True if_True)
    then show ?thesis by blast
  next
    case False
    then have "k \<noteq> e" "flip k \<noteq> e" unfolding e flip_def by auto
    then have "k \<in> set cs \<or> flip k \<in> set cs \<or> latencies s k = Some w"
      using Cons.prems(2) by auto
    moreover have "latencies ?s3 k = latencies s k" by (simp only: l3 False if_False)
    ultimately show ?thesis by (simp only:)
  qed
  from Cons.IH [OF ok3 this]
  show ?case unfolding step .
qed

lemma init_const:
  assumes "0 \<le> x" "x < 1" "k \<in> edge_keys"
  shows "\<exists>s. init (sconst x) = Inr (s, sconst x) \<and> running s \<and>
             latencies s k = Some (10 + (50 - 10) * x)"
proof -
  let ?s0 = "create_nodes node_positions blank"
  have tabs: "latencies ?s0 = latencies blank" "ospf_costs ?s0 = ospf_costs blank"
    using create_nodes_tables [of node_positions blank] by simp_all
  have m: "metrics_ok ?s0"
    using metrics_ok_blank unfolding metrics_ok_def tabs .
  have "k \<in> set connections \<or> flip k \<in> set connections"
    using assms(3) unfolding edge_keys_def flip_def by force
  then have "k \<in> set connections \<or> flip k \<in> set connections \<or>
      latencies ?s0 k = Some (10 + (50 - 10) * x)" by blast
  from create_edges_const [OF m assms(1,2) refl this]
  obtain s' where run: "create_edges connections ?s0 (sconst x) = (None, s', sconst x)"
    and l: "latencies s' k = Some (10 + (50 - 10) * x)" by blast
  have "init (sconst x) = Inr (s'\<lparr> running := True \<rparr>, sconst x)"
    unfolding init_def initialize_network_def run by simp
  then show ?thesis using l by simp
qed

lemma resume_const:
  assumes "reachable s" "running s" "0 \<le> x" "x < 1" "latencies s k = Some l"
  shows "\<exists>s'. update_latencies_resume (Sleeping, s, sconst x) = (Sleeping, s', sconst x) \<and>
              reachable s' \<and> running s' \<and>
              latencies s' k = Some (l * (0.9 + (1.1 - 0.9) * x) ^ hits (nx_edges topology) k)"
proof -
  have ok: "state_ok s" by (rule reachable_ok [OF assms(1)])
  then have m: "metrics_ok s" and g: "graph s = topology" and d: "dom (latencies s) = edge_keys"
    by (simp_all add: state_ok_def)
  have sub: "set (nx_edges topology) \<subseteq> dom (latencies s)"
    unfolding d by (rule edges_in_keys)
  from perturb_edges_const [OF m assms(3,4) sub assms(5)]
  obtain s' where run: "perturb_edges (nx_edges topology) s (sconst x) = (None, s', sconst x)"
    and l: "latencies s' k = Some (l * (0.9 + (1.1 - 0.9) * x) ^ hits (nx_edges topology) k)"
    by blast
  have pass: "perturb_pass s (sconst x) = (None, s', sconst x)"
    unfolding perturb_pass_def g by (rule run)
  have vr: "valid_rng (sconst x)" by (rule valid_rng_sconst [OF assms(3,4)])
  have r': "reachable s'" by (rule reachable.perturb [OF assms(1) vr pass])
  from pass_ok [OF ok vr] have run': "running s' = running s"
    unfolding pass by simp
  have "update_latencies_resume (Sleeping, s, sconst x) = (Sleeping, s', sconst x)"
    unfolding update_latencies_resume_def run_from_test_def using assms(2) pass by simp
  then show ?thesis using r' run' assms(2) l by blast
qed

lemma passes_const:
  assumes "reachable s" "running s" "0 \<le> x" "x < 1" "latencies s k = Some l"
  shows "\<exists>s'. other_tasks n (Sleeping, s, sconst x) = (Sleeping, s', sconst x) \<and>
              reachable s' \<and> running s' \<and>
              latencies s' k = Some (l * ((0.9 + (1.1 - 0.9) * x) ^ hits (nx_edges topology) k) ^ n)"
proof (induction n)
  case 0
  have "other_tasks 0 (Sleeping, s, sconst x) = (Sleeping, s, sconst x)"
    unfolding other_tasks_def by (simp only: funpow_0)
  moreover have "latencies s k = Some (l * ((0.9 + (1.1 - 0.9) * x) ^ hits (nx_edges topology) k) ^ 0)"
    using assms(5) by simp
  ultimately show ?case using assms(1,2) by blast
next
  case (Suc n)
  let ?f = "(0.9 + (1.1 - 0.9) * x) ^ hits (nx_edges topology) k"
  from Suc obtain s1 where run: "other_tasks n (Sleeping, s, sconst x) = (Sleeping, s1, sconst x)"
    and r1: "reachable s1" "running s1" and l1: "latencies s1 k = Some (l * ?f ^ n)"
    by blast
  from resume_const [OF r1 assms(3,4) l1]
  obtain s2 where step: "update_latencies_resume (Sleeping, s1, sconst x) = (Sleeping, s2, sconst x)"
    and r2: "reachable s2" "running s2" and l2: "latencies s2 k = Some (l * ?f ^ n * ?f)"
    by blast
  have "other_tasks (Suc n) (Sleeping, s, sconst x) = (Sleeping, s2, sconst x)"
    using run step unfolding other_tasks_def by simp
  moreover have "l * ?f ^ n * ?f = l * ?f ^ Suc n" by simp
  ultimately show ?case using r2 l2 by (metis (no_types, lifting))
qed

lemma hits_R1_R2: "hits (nx_edges topology) (''R1'', ''R2'') = 1"
  unfolding topology_edges by (simp add: hits_def flip_def)

lemma big_power: "(500::real) * 25 ^ 41 < 23 * 27 ^ 41"
  by simp

lemma cost_after_41:
  "py_int (100 / (((10 + (50 - 10) * (9 / 10)) * ((0.9 + (1.1 - 0.9) * (9 / 10)) ^ 1) ^ 41) / 10)) = 0"
proof -
  have e: "(100::real) / (((10 + (50 - 10) * (9 / 10)) * ((0.9 + (1.1 - 0.9) * (9 / 10)) ^ 1) ^ 41) / 10)
      = 500 / (23 * (27 / 25) ^ 41)"
    by simp
  have lt: "(500::real) / (23 * (27 / 25) ^ 41) < 1"
    using big_power by (simp add: power_divide field_simps)
  have ge: "0 \<le> (500::real) / (23 * (27 / 25) ^ 41)" by simp
  have "\<lfloor>(500::real) / (23 * (27 / 25) ^ 41)\<rfloor> = 0"
    using ge lt by (simp only: floor_eq_iff) simp
  then show ?thesis unfolding e py_int_def using ge by (simp only: if_True)
qed

lemma edge_entry:
  assumes "reachable s" "(u, v) \<in> set connections \<or> (v, u) \<in> set connections"
  shows "\<exists>l. latencies s (u, v) = Some l \<and> 0 < l \<and>
             ospf_costs s (u, v) = Some (py_int (100 / (l / 10)))"
proof -
  have ok: "state_ok s" by (rule reachable_ok [OF assms(1)])
  then have m: "metrics_ok s" and d: "dom (latencies s) = edge_keys"
    by (simp_all add: state_ok_def)
  have "(u, v) \<in> dom (latencies s)"
    unfolding d by (rule in_edge_keys [OF assms(2)])
  then obtain l where l: "latencies s (u, v) = Some l" by blast
  have pos: "0 < l"
    using m l unfolding metrics_ok_def positive_table_def by blast
  have "ospf_costs s (u, v) = map_option (\<lambda>l. py_int (100 / (l / 10))) (latencies s (u, v))"
    using m unfolding metrics_ok_def cost_tracks_def by blast
  then have "ospf_costs s (u, v) = Some (py_int (100 / (l / 10)))" unfolding l by simp
  then show ?thesis using l pos by blast
qed

lemma adj_has_node: "x \<in> set (nx_adj g a) \<Longrightarrow> nx_has_node g a"
  unfolding nx_adj_def nx_has_node_def
  by (cases "map_of g a") (force dest: map_of_SomeD)+

lemma walk_nonempty: "walk g p \<Longrightarrow> p \<noteq> []"
  by (cases p) simp_all

lemma walk_snoc:
  "walk g p \<Longrightarrow> v \<in> fst ` set (nx_adj g (last p)) \<Longrightarrow> nx_has_node g v \<Longrightarrow> walk g (p @ [v])"
  by (induction g p rule: walk.induct) simp_all

lemma walk_cost_snoc: "p \<noteq> [] \<Longrightarrow> walk_cost c (p @ [v]) = walk_cost c p + c (last p) v"
  by (induction c p rule: walk_cost.induct) simp_all

lemma walk_nonneg: "weights_ok g c \<Longrightarrow> walk g q \<Longrightarrow> 0 \<le> walk_cost c q"
proof (induction g q rule: walk.induct)
  case (3 g a b rest)
  then obtain w where "(b, w) \<in> set (nx_adj g a)" by auto
  then have "0 \<le> c a b" using 3(2) unfolding weights_ok_def by blast
  then show ?case using 3 by simp
qed simp_all

lemma walk_cost_split:
  "walk_cost c (q1 @ x # y # q2) = walk_cost c (q1 @ [x]) + c x y + walk_cost c (y # q2)"
  by (induction c q1 rule: walk_cost.induct) simp_all

lemma border:
  assumes "walk g q" "hd q \<in> S" "last q \<notin> S"
  shows "\<exists>q1 x y q2. q = q1 @ x # y # q2 \<and> x \<in> S \<and> y \<notin> S \<and>
           y \<in> fst ` set (nx_adj g x) \<and> walk g (q1 @ [x]) \<and> hd (q1 @ [x]) = hd q \<and>
           walk g (y # q2)"
  using assms
proof (induction g q rule: walk.induct)
  case (1 g)
  then show ?case by simp
next
  case (2 g a)
  then show ?case by simp
next
  case (3 g a b rest)
  show ?case
  proof (cases "b \<in> S")
    case False
    have "a # b # rest = [] @ a # b # rest \<and> a \<in> S \<and> b \<notin> S \<and>
        b \<in> fst ` set (nx_adj g a) \<and> walk g ([] @ [a]) \<and> hd ([] @ [a]) = hd (a # b # rest) \<and>
        walk g (b # rest)"
      using 3(2,3) False by (auto dest: adj_has_node)
    then show ?thesis by blast
  next
    case True
    have w: "walk g (b # rest)" using 3(2) by simp
    have l: "last (b # rest) \<notin> S" using 3(4) by simp
    have hb: "hd (b # rest) \<in> S" using True by simp
    from "3.IH" [OF w hb l] obtain q1 x y q2 where h: "b # rest = q1 @ x # y # q2" "x \<in> S" "y \<notin> S"
      "y \<in> fst ` set (nx_adj g x)" "walk g (q1 @ [x])" "hd (q1 @ [x]) = hd (b # rest)"
      "walk g (y # q2)"
      by blast
    have "hd (q1 @ [x]) = b" using h(6) by simp
    then have "walk g ((a # q1) @ [x])"
      using h(5) 3(2) by (cases "q1 @ [x]") auto
    moreover have "a # b # rest = (a # q1) @ x # y # q2" using h(1) by simp
    ultimately show ?thesis using h(2,3,4,7) by (metis append_Cons list.sel(1))
  qed
qed

lemma least_entry_None: "least_entry es = None \<Longrightarrow> es = []"
  by (cases es) (auto split: option.splits if_splits)

lemma least_entry_min:
  "least_entry es = Some m \<Longrightarrow> e \<in> set es \<Longrightarrow> fst (snd m) \<le> fst (snd e)"
  by (induction es arbitrary: m) (auto split: option.splits if_splits dest: least_entry_None)

lemma relax_edge_skip: "v \<in> set fin \<Longrightarrow> relax_edge du pu fin e tab v = tab v"
  unfolding relax_edge_def by (auto split: option.splits prod.splits)

lemma relax_edge_result:
  "relax_edge du pu fin (v', w') tab v = Some (d, p) \<Longrightarrow>
   tab v = Some (d, p) \<or> (v = v' \<and> v \<notin> set fin \<and> d = du + w' \<and> p = pu @ [v])"
  unfolding relax_edge_def by (auto split: option.splits if_splits)

lemma relax_edge_le:
  "tab v = Some (d, p) \<Longrightarrow> \<exists>d' p'. relax_edge du pu fin e tab v = Some (d', p') \<and> d' \<le> d"
  unfolding relax_edge_def by (auto split: option.splits prod.splits)

lemma relax_edge_covers:
  "v \<notin> set fin \<Longrightarrow> \<exists>d' p'. relax_edge du pu fin (v, w) tab v = Some (d', p') \<and> d' \<le> du + w"
  unfolding relax_edge_def by (auto split: option.splits)

lemma relax_skip: "v \<in> set fin \<Longrightarrow> relax du pu fin es tab v = tab v"
  by (induction es arbitrary: tab) (simp_all add: relax_edge_skip)

lemma relax_result:
  "relax du pu fin es tab v = Some (d, p) \<Longrightarrow>
   tab v = Some (d, p) \<or> (\<exists>w. (v, w) \<in> set es \<and> v \<notin> set fin \<and> d = du + w \<and> p = pu @ [v])"
proof (induction es arbitrary: tab)
  case Nil
  then show ?case by simp
next
  case (Cons e es)
  obtain v' w' where e: "e = (v', w')" by (cases e)
  from Cons.prems have "relax du pu fin es (relax_edge du pu fin e tab) v = Some (d, p)" by simp
  from Cons.IH [OF this] consider
      "relax_edge du pu fin e tab v = Some (d, p)"
    | w where "(v, w) \<in> set es" "v \<notin> set fin" "d = du + w" "p = pu @ [v]"
    by blast
  then show ?case
  proof cases
    case 1
    from relax_edge_result [OF 1 [unfolded e]] show ?thesis unfolding e by auto
  next
    case 2
    then show ?thesis by auto
  qed
qed

lemma relax_le:
  "tab v = Some (d, p) \<Longrightarrow> \<exists>d' p'. relax du pu fin es tab v = Some (d', p') \<and> d' \<le> d"
proof (induction es arbitrary: tab d p)
  case Nil
  then show ?case by simp
next
  case (Cons e es)
  from relax_edge_le [where tab = tab and v = v and e = e and du = du and pu = pu and fin = fin, OF Cons.prems]
  obtain d1 p1 where 1: "relax_edge du pu fin e tab v = Some (d1, p1)" "d1 \<le> d" by blast
  from Cons.IH [where tab = "relax_edge du pu fin e tab", OF 1(1)] obtain d2 p2 where
    "relax du pu fin es (relax_edge du pu fin e tab) v = Some (d2, p2)" "d2 \<le> d1" by blast
  then show ?case using 1(2) by auto
qed

lemma relax_covers:
  "(v, w) \<in> set es \<Longrightarrow> v \<notin> set fin \<Longrightarrow>
   \<exists>d' p'. relax du pu fin es tab v = Some (d', p') \<and> d' \<le> du + w"
proof (induction es arbitrary: tab)
  case Nil
  then show ?case by simp
next
  case (Cons e es)
  show ?case
  proof (cases "e = (v, w)")
    case True
    from relax_edge_covers [OF Cons.prems(2), of du pu w tab]
    obtain d1 p1 where 1: "relax_edge du pu fin (v, w) tab v = Some (d1, p1)" "d1 \<le> du + w"
      by blast
    from relax_le [where tab = "relax_edge du pu fin (v, w) tab" and v = v and es = es
        and du = du and pu = pu and fin = fin, OF 1(1)] obtain d2 p2 where
      "relax du pu fin es (relax_edge du pu fin (v, w) tab) v = Some (d2, p2)" "d2 \<le> d1" by blast
    then show ?thesis using 1(2) True by auto
  next
    case False
    then have "(v, w) \<in> set es" using Cons.prems(1) by auto
    from Cons.IH [OF this Cons.prems(2)] show ?thesis by simp
  qed
qed

lemma inv_table:
  "dijkstra_inv g c s tab fin \<Longrightarrow> tab v = Some (d, p) \<Longrightarrow>
   walk g p \<and> hd p = s \<and> last p = v \<and> walk_cost c p = d"
  unfolding dijkstra_inv_def by blast

lemma inv_final:
  "dijkstra_inv g c s tab fin \<Longrightarrow> v \<in> set fin \<Longrightarrow> tab v = Some (d, p) \<Longrightarrow>
   walk g q \<Longrightarrow> hd q = s \<Longrightarrow> last q = v \<Longrightarrow> d \<le> walk_cost c q"
  unfolding dijkstra_inv_def by blast

lemma inv_relaxed:
  "dijkstra_inv g c s tab fin \<Longrightarrow> x \<in> set fin \<Longrightarrow> (y, w) \<in> set (nx_adj g x) \<Longrightarrow> y \<notin> set fin \<Longrightarrow>
   \<exists>dx px dy py. tab x = Some (dx, px) \<and> tab y = Some (dy, py) \<and> dy \<le> dx + w"
  unfolding dijkstra_inv_def by blast

lemma inv_start:
  "dijkstra_inv g c s tab fin \<Longrightarrow> s \<in> set fin \<or> (fin = [] \<and> tab = [s \<mapsto> (0, [s])])"
  unfolding dijkstra_inv_def by blast

lemma inv_present: "dijkstra_inv g c s tab fin \<Longrightarrow> v \<in> set fin \<Longrightarrow> tab v \<noteq> None"
  unfolding dijkstra_inv_def by blast

lemma inv_initial:
  assumes "nx_has_node g s"
  shows "dijkstra_inv g c s [s \<mapsto> (0, [s])] []"
  unfolding dijkstra_inv_def using assms by (auto split: if_splits)

lemma pick_facts:
  assumes "least_entry (fringe ns tab fin) = Some (u, du, pu)"
  shows "u \<in> set ns" "u \<notin> set fin" "tab u = Some (du, pu)"
    and "\<And>y dy py. y \<in> set ns \<Longrightarrow> y \<notin> set fin \<Longrightarrow> tab y = Some (dy, py) \<Longrightarrow> du \<le> dy"
proof -
  have m: "(u, du, pu) \<in> set (fringe ns tab fin)"
    using least_entry_mem [OF assms] .
  then show "u \<in> set ns" "u \<notin> set fin" "tab u = Some (du, pu)"
    by (simp_all add: fringe_mem)
  fix y dy py
  assume "y \<in> set ns" "y \<notin> set fin" "tab y = Some (dy, py)"
  then have "(y, dy, py) \<in> set (fringe ns tab fin)" by (simp add: fringe_mem)
  from least_entry_min [OF assms this] show "du \<le> dy" by simp
qed

lemma border_bound:
  assumes inv: "dijkstra_inv g c s tab fin" and w: "weights_ok g c"
    and sf: "s \<in> set fin"
    and q: "walk g q" "hd q = s" "last q \<notin> set fin"
  shows "\<exists>y dy py. y \<notin> set fin \<and> nx_has_node g y \<and> tab y = Some (dy, py) \<and> dy \<le> walk_cost c q"
proof -
  from border [OF q(1), of "set fin"] q(2,3) sf
  obtain q1 x y q2 where d: "q = q1 @ x # y # q2" "x \<in> set fin" "y \<notin> set fin"
    "y \<in> fst ` set (nx_adj g x)" "walk g (q1 @ [x])" "hd (q1 @ [x]) = hd q" "walk g (y # q2)"
    by blast
  from d(4) obtain wt where wt: "(y, wt) \<in> set (nx_adj g x)" by auto
  then have wc: "wt = c x y" "0 \<le> wt" "nx_has_node g y"
    using w unfolding weights_ok_def by blast+
  from inv_relaxed [OF inv d(2) wt d(3)]
  obtain dx px dy py where t: "tab x = Some (dx, px)" "tab y = Some (dy, py)" "dy \<le> dx + wt"
    by blast
  have "last (q1 @ [x]) = x" by simp
  from inv_final [OF inv d(2) t(1) d(5) _ this] d(6) q(2)
  have dx: "dx \<le> walk_cost c (q1 @ [x])" by simp
  have rest: "0 \<le> walk_cost c (y # q2)" by (rule walk_nonneg [OF w d(7)])
  have "walk_cost c q = walk_cost c (q1 @ [x]) + c x y + walk_cost c (y # q2)"
    unfolding d(1) by (rule walk_cost_split)
  then have "dy \<le> walk_cost c q" using dx rest t(3) wc(1) by linarith
  then show ?thesis using d(3) wc(3) t(2) by blast
qed

lemma pick_optimal:
  assumes inv: "dijkstra_inv g c s tab fin" and w: "weights_ok g c"
    and pick: "least_entry (fringe (map fst g) tab fin) = Some (u, du, pu)"
    and q: "walk g q" "hd q = s" "last q = u"
  shows "du \<le> walk_cost c q"
proof -
  note pf = pick_facts [OF pick]
  from inv_start [OF inv] show ?thesis
  proof
    assume sf: "s \<in> set fin"
    have "last q \<notin> set fin" using pf(2) q(3) by simp
    from border_bound [OF inv w sf q(1,2) this]
    obtain y dy py where y: "y \<notin> set fin" "nx_has_node g y" "tab y = Some (dy, py)"
      "dy \<le> walk_cost c q" by blast
    have "y \<in> set (map fst g)" using y(2) by (simp add: nx_has_node_def)
    from pf(4) [OF this y(1) y(3)] y(4) show ?thesis by linarith
  next
    assume "fin = [] \<and> tab = [s \<mapsto> (0, [s])]"
    then have "du = 0" using pf(3) by (auto split: if_splits)
    then show ?thesis using walk_nonneg [OF w q(1)] by simp
  qed
qed

lemma no_pick_unreachable:
  assumes inv: "dijkstra_inv g c s tab fin" and w: "weights_ok g c" and s: "nx_has_node g s"
    and pick: "least_entry (fringe (map fst g) tab fin) = None"
    and t: "t \<notin> set fin"
  shows "\<not> (walk g q \<and> hd q = s \<and> last q = t)"
proof
  assume q: "walk g q \<and> hd q = s \<and> last q = t"
  have empty: "fringe (map fst g) tab fin = []" by (rule least_entry_None [OF pick])
  from inv_start [OF inv] show False
  proof
    assume sf: "s \<in> set fin"
    have "last q \<notin> set fin" using t q by simp
    from border_bound [OF inv w sf _ _ this] q
    obtain y dy py where y: "y \<notin> set fin" "nx_has_node g y" "tab y = Some (dy, py)" by blast
    then have "(y, dy, py) \<in> set (fringe (map fst g) tab fin)"
      by (simp add: fringe_mem nx_has_node_def)
    then show False unfolding empty by simp
  next
    assume "fin = [] \<and> tab = [s \<mapsto> (0, [s])]"
    then have "(s, 0, [s]) \<in> set (fringe (map fst g) tab fin)"
      using s by (simp add: fringe_mem nx_has_node_def)
    then show False unfolding empty by simp
  qed
qed

lemma inv_step:
  assumes inv: "dijkstra_inv g c s tab fin" and w: "weights_ok g c"
    and pick: "least_entry (fringe (map fst g) tab fin) = Some (u, du, pu)"
  shows "dijkstra_inv g c s (relax du pu (u # fin) (nx_adj g u) tab) (u # fin)"
proof -
  note pf = pick_facts [OF pick]
  let ?tab = "relax du pu (u # fin) (nx_adj g u) tab"
  note tu = inv_table [OF inv pf(3)]
  have keep: "\<And>v. v \<in> set (u # fin) \<Longrightarrow> ?tab v = tab v"
    by (rule relax_skip)
  have T: "walk g p \<and> hd p = s \<and> last p = v \<and> walk_cost c p = d" if "?tab v = Some (d, p)" for v d p
  proof -
    from relax_result [OF that] consider "tab v = Some (d, p)"
      | wt where "(v, wt) \<in> set (nx_adj g u)" "d = du + wt" "p = pu @ [v]" by blast
    then show ?thesis
    proof cases
      case 1
      then show ?thesis by (rule inv_table [OF inv])
    next
      case 2
      have wc: "wt = c u v" "nx_has_node g v"
        using w 2(1) unfolding weights_ok_def by blast+
      have ne: "pu \<noteq> []" using tu by (auto dest: walk_nonempty)
      have "v \<in> fst ` set (nx_adj g (last pu))" using 2(1) tu by force
      then have "walk g (pu @ [v])" using tu wc(2) by (intro walk_snoc) simp_all
      moreover have "hd (pu @ [v]) = s" using ne tu by simp
      moreover have "walk_cost c (pu @ [v]) = du + wt"
        using walk_cost_snoc [OF ne, of c v] tu wc(1) by simp
      ultimately show ?thesis unfolding 2(2,3) by simp
    qed
  qed
  have F: "d \<le> walk_cost c q"
    if "v \<in> set (u # fin)" "?tab v = Some (d, p)" "walk g q" "hd q = s" "last q = v" for v d p q
  proof -
    have tv: "tab v = Some (d, p)" using keep [OF that(1)] that(2) by simp
    show ?thesis
    proof (cases "v = u")
      case True
      then have "d = du" using tv pf(3) by simp
      then show ?thesis using pick_optimal [OF inv w pick that(3,4)] that(5) True by simp
    next
      case False
      then have "v \<in> set fin" using that(1) by simp
      then show ?thesis by (rule inv_final [OF inv _ tv that(3,4,5)])
    qed
  qed
  have R: "\<exists>dx px dy py. ?tab x = Some (dx, px) \<and> ?tab y = Some (dy, py) \<and> dy \<le> dx + wt"
    if "x \<in> set (u # fin)" "(y, wt) \<in> set (nx_adj g x)" "y \<notin> set (u # fin)" for x y wt
  proof (cases "x = u")
    case True
    from relax_covers [OF that(2) [unfolded True] that(3), of du pu tab]
    obtain d' p' where "?tab y = Some (d', p')" "d' \<le> du + wt" by blast
    moreover have "?tab x = Some (du, pu)" using keep [OF that(1)] pf(3) True by simp
    ultimately show ?thesis by blast
  next
    case False
    then have xf: "x \<in> set fin" using that(1) by simp
    have yf: "y \<notin> set fin" using that(3) by simp
    from inv_relaxed [OF inv xf that(2) yf]
    obtain dx px dy py where t: "tab x = Some (dx, px)" "tab y = Some (dy, py)" "dy \<le> dx + wt"
      by blast
    from relax_le [where tab = tab and v = y and du = du and pu = pu and fin = "u # fin"
        and es = "nx_adj g u", OF t(2)]
    obtain d' p' where "?tab y = Some (d', p')" "d' \<le> dy" by blast
    moreover have "?tab x = Some (dx, px)" using keep [OF that(1)] t(1) by simp
    ultimately show ?thesis using t(3) by (metis (no_types, lifting) order_trans)
  qed
  have P: "?tab v \<noteq> None" if "v \<in> set (u # fin)" for v
  proof (cases "v = u")
    case True
    then show ?thesis using keep [OF that] pf(3) by simp
  next
    case False
    then have "v \<in> set fin" using that by simp
    then show ?thesis using keep [OF that] inv_present [OF inv] by simp
  qed
  have S: "s \<in> set (u # fin)"
  proof -
    from inv_start [OF inv] show ?thesis
    proof
      assume "s \<in> set fin"
      then show ?thesis by simp
    next
      assume "fin = [] \<and> tab = [s \<mapsto> (0, [s])]"
      then have "u = s" using pf(3) by (auto split: if_splits)
      then show ?thesis by simp
    qed
  qed
  show ?thesis
    unfolding dijkstra_inv_def
  proof (intro conjI allI impI ballI)
    fix v d p assume "?tab v = Some (d, p)"
    from T [OF this] show "walk g p" "hd p = s" "last p = v" "walk_cost c p = d" by simp_all
  next
    fix v d p q
    assume "v \<in> set (u # fin) \<and> ?tab v = Some (d, p) \<and> walk g q \<and> hd q = s \<and> last q = v"
    then show "d \<le> walk_cost c q" using F by blast
  next
    fix x y wt
    assume "x \<in> set (u # fin) \<and> (y, wt) \<in> set (nx_adj g x) \<and> y \<notin> set (u # fin)"
    then show "\<exists>dx px dy py. ?tab x = Some (dx, px) \<and> ?tab y = Some (dy, py) \<and> dy \<le> dx + wt"
      using R by blast
  next
    fix v assume "v \<in> set (u # fin)"
    then show "?tab v \<noteq> None" by (rule P)
  next
    show "s \<in> set (u # fin) \<or> (u # fin = [] \<and> ?tab = [s \<mapsto> (0, [s])])" using S by blast
  qed
qed

lemma dijkstra_loop_correct:
  "weights_ok g c \<Longrightarrow> nx_has_node g s \<Longrightarrow> dijkstra_inv g c s tab fin \<Longrightarrow> t \<notin> set fin \<Longrightarrow>
   (case dijkstra_loop g t tab fin of
      None \<Rightarrow> \<forall>q. \<not> (walk g q \<and> hd q = s \<and> last q = t)
    | Some (d, p) \<Rightarrow>
        walk g p \<and> hd p = s \<and> last p = t \<and> walk_cost c p = d \<and>
        (\<forall>q. walk g q \<and> hd q = s \<and> last q = t \<longrightarrow> d \<le> walk_cost c q))"
proof (induction g t tab fin rule: dijkstra_loop.induct)
  case (1 g target tab fin)
  note w = "1.prems"(1) and s = "1.prems"(2) and inv = "1.prems"(3) and t = "1.prems"(4)
  show ?case
  proof (cases "least_entry (fringe (map fst g) tab fin)")
    case None
    then have r: "dijkstra_loop g target tab fin = None"
      by (subst dijkstra_loop.simps) simp
    show ?thesis unfolding r using no_pick_unreachable [OF inv w s None t] by simp
  next
    case (Some e)
    obtain u du pu where e: "e = (u, du, pu)" by (cases e)
    note pick = Some [unfolded e]
    show ?thesis
    proof (cases "u = target")
      case True
      have r: "dijkstra_loop g target tab fin = Some (du, pu)"
        by (subst dijkstra_loop.simps) (simp add: pick True)
      note pf = pick_facts [OF pick]
      have "walk g pu \<and> hd pu = s \<and> last pu = target \<and> walk_cost c pu = du"
        using inv_table [OF inv pf(3)] True by simp
      moreover have "\<forall>q. walk g q \<and> hd q = s \<and> last q = target \<longrightarrow> du \<le> walk_cost c q"
        using pick_optimal [OF inv w pick] True by blast
      ultimately show ?thesis unfolding r by simp
    next
      case False
      have r: "dijkstra_loop g target tab fin =
          dijkstra_loop g target (relax du pu (u # fin) (nx_adj g u) tab) (u # fin)"
        by (subst dijkstra_loop.simps) (simp add: pick False)
      have inv': "dijkstra_inv g c s (relax du pu (u # fin) (nx_adj g u) tab) (u # fin)"
        by (rule inv_step [OF inv w pick])
      have t': "target \<notin> set (u # fin)" using t False by simp
      show ?thesis unfolding r
        by (rule "1.IH" [OF pick refl refl False w s inv' t'])
    qed
  qed
qed

lemma reference_shortest_path_found:
  assumes "weights_ok g c" "reference_shortest_path g s t = Inr p"
  shows "walk g p \<and> hd p = s \<and> last p = t \<and>
         (\<forall>q. walk g q \<and> hd q = s \<and> last q = t \<longrightarrow> walk_cost c p \<le> walk_cost c q)"
proof -
  have n: "nx_has_node g s" "nx_has_node g t"
    using assms(2) by (auto simp: reference_shortest_path_def split: if_splits)
  show ?thesis
  proof (cases "s = t")
    case True
    then have "p = [s]" using assms(2) n by (simp add: reference_shortest_path_def)
    then show ?thesis using n True walk_nonneg [OF assms(1)] by simp
  next
    case False
    from assms(2) n False obtain d where d: "dijkstra_loop g t [s \<mapsto> (0, [s])] [] = Some (d, p)"
      by (auto simp: reference_shortest_path_def split: option.splits)
    have "t \<notin> set []" by simp
    from dijkstra_loop_correct [OF assms(1) n(1) inv_initial [OF n(1)] this]
    show ?thesis unfolding d by simp
  qed
qed

lemma reference_shortest_path_error:
  assumes "weights_ok g c" "reference_shortest_path g s t = Inl e"
  shows "(e = NodeNotFound \<and> (\<not> nx_has_node g s \<or> \<not> nx_has_node g t)) \<or>
         (e = NetworkXNoPath \<and> nx_has_node g s \<and> nx_has_node g t \<and>
          (\<forall>q. \<not> (walk g q \<and> hd q = s \<and> last q = t)))"
proof (cases "nx_has_node g s \<and> nx_has_node g t")
  case False
  then show ?thesis using assms(2) by (auto simp: reference_shortest_path_def)
next
  case True
  then have ne: "s \<noteq> t" using assms(2) by (auto simp: reference_shortest_path_def)
  with assms(2) True have d: "dijkstra_loop g t [s \<mapsto> (0, [s])] [] = None" and e: "e = NetworkXNoPath"
    by (auto simp: reference_shortest_path_def split: option.splits)
  have "t \<notin> set []" by simp
  from dijkstra_loop_correct [OF assms(1) _ inv_initial this, of s] True
  show ?thesis unfolding d using e by simp
qed





















lemma example_sim_ok: "reachable example_sim" "state_ok example_sim" "running example_sim"
proof -
  have v: "valid_rng (sconst (1 / 2 :: real))" by (rule valid_rng_sconst) simp_all
  show "reachable example_sim" unfolding example_sim_def by (rule constructed_reachable [OF v])
  then show "state_ok example_sim" by (rule reachable_ok)
  from init_ok [OF v] obtain s r' where "init (sconst (1 / 2)) = Inr (s, r')" "running s" by blast
  then show "running example_sim" unfolding example_sim_def by simp
qed


lemma reference_contract: "nx_contract reference_shortest_path"
  unfolding nx_contract_def
proof (intro conjI allI impI)
  fix g :: "int nx_graph" and s t
  assume "\<not> nx_has_node g s \<or> \<not> nx_has_node g t"
  then show "reference_shortest_path g s t = Inl NodeNotFound"
    by (auto simp: reference_shortest_path_def)
next
  fix g :: "int nx_graph" and s
  assume "nx_has_node g s"
  then show "reference_shortest_path g s s = Inr [s]"
    by (simp add: reference_shortest_path_def)
next
  fix g :: "int nx_graph" and c s t
  assume a: "weights_ok g c \<and> nx_has_node g s \<and> nx_has_node g t"
  show "case reference_shortest_path g s t of
          Inl e \<Rightarrow> e = NetworkXNoPath \<and> (\<forall>q. \<not> (walk g q \<and> hd q = s \<and> last q = t))
        | Inr p \<Rightarrow> walk g p \<and> hd p = s \<and> last p = t \<and>
            (\<forall>q. walk g q \<and> hd q = s \<and> last q = t \<longrightarrow> walk_cost c p \<le> walk_cost c q)"
  proof (cases "reference_shortest_path g s t")
    case (Inl e)
    from reference_shortest_path_error [OF a [THEN conjunct1] Inl] a
    show ?thesis unfolding Inl by simp
  next
    case (Inr p)
    from reference_shortest_path_found [OF a [THEN conjunct1] Inr]
    show ?thesis unfolding Inr by simp
  qed
qed

lemma reachable_nodes: "reachable s \<Longrightarrow> fst ` set (nodes s) = set node_names"
proof -
  assume "reachable s"
  then have "map fst (nodes s) = node_names"
    using reachable_ok by (simp add: state_ok_def)
  then have "set (map fst (nodes s)) = set node_names" by (rule arg_cong)
  then show ?thesis by (simp only: set_map)
qed

lemma edge_keys_set:
  "edge_keys =
     {(''R2'', ''R1''), (''R3'', ''R2''), (''R4'', ''R3''), (''R1'', ''R4''),
      (''N1'', ''R1''), (''N2'', ''R2''), (''N3'', ''R3''),
      (''R1'', ''R2''), (''R2'', ''R3''), (''R3'', ''R4''), (''R4'', ''R1''),
      (''R1'', ''N1''), (''R2'', ''N2''), (''R3'', ''N3'')}"
  unfolding edge_keys_def connections_def flip_def by simp

lemma node_cases:
  obtains "a = ''R1''" | "a = ''R2''" | "a = ''R3''" | "a = ''R4''"
    | "a = ''N1''" | "a = ''N2''" | "a = ''N3''" | "a \<notin> set node_names"
  unfolding node_names_def node_positions_def by auto

lemma edge_keys_nodes: "(a, b) \<in> edge_keys \<Longrightarrow> a \<in> set node_names \<and> b \<in> set node_names"
  unfolding edge_keys_set node_names_def node_positions_def by auto

lemma edge_cost_nonneg:
  assumes "reachable s"
  shows "0 \<le> edge_cost s u v"
proof (cases "ospf_costs s (u, v)")
  case None
  then show ?thesis by (simp add: edge_cost_def)
next
  case (Some c)
  have m: "metrics_ok s" using reachable_ok [OF assms] by (simp add: state_ok_def)
  then have "ospf_costs s (u, v) = map_option (\<lambda>l. py_int (100 / (l / 10))) (latencies s (u, v))"
    unfolding metrics_ok_def cost_tracks_def by blast
  with Some obtain l where l: "latencies s (u, v) = Some l" "c = py_int (100 / (l / 10))"
    by (cases "latencies s (u, v)") simp_all
  have "0 < l" using m l(1) unfolding metrics_ok_def positive_table_def by blast
  then have "0 \<le> c" unfolding l(2) by (simp add: py_int_def)
  then show ?thesis using Some by (simp add: edge_cost_def)
qed

lemma edge_cost_sym:
  assumes "reachable s"
  shows "edge_cost s u v = edge_cost s v u"
proof -
  have "sym_table (ospf_costs s)"
    using reachable_ok [OF assms] by (simp add: state_ok_def metrics_ok_def)
  then have "ospf_costs s (u, v) = ospf_costs s (v, u)"
    unfolding sym_table_def by blast
  then show ?thesis by (simp add: edge_cost_def)
qed

lemma cost_entry:
  assumes "reachable s" "(u, v) \<in> set connections \<or> (v, u) \<in> set connections"
  shows "ospf_costs s (u, v) = Some (edge_cost s u v)"
proof -
  from edge_entry [OF assms] obtain c where "ospf_costs s (u, v) = Some c" by blast
  then show ?thesis by (simp add: edge_cost_def)
qed

lemma routing_graph_eq:
  assumes "reachable s"
  shows "build_ospf_graph (nx_edges (graph s)) (ospf_costs s) [] = Inr (routing_literal s)"
proof -
  have g: "graph s = topology"
    using reachable_ok [OF assms] by (simp add: state_ok_def)
  note ce = cost_entry [OF assms]
  have c: "ospf_costs s (''R1'', ''R2'') = Some (edge_cost s ''R1'' ''R2'')"
      "ospf_costs s (''R1'', ''R4'') = Some (edge_cost s ''R1'' ''R4'')"
      "ospf_costs s (''R1'', ''N1'') = Some (edge_cost s ''R1'' ''N1'')"
      "ospf_costs s (''R2'', ''R3'') = Some (edge_cost s ''R2'' ''R3'')"
      "ospf_costs s (''R2'', ''N2'') = Some (edge_cost s ''R2'' ''N2'')"
      "ospf_costs s (''R3'', ''R4'') = Some (edge_cost s ''R3'' ''R4'')"
      "ospf_costs s (''R3'', ''N3'') = Some (edge_cost s ''R3'' ''N3'')"
    by (rule ce, simp add: connections_def)+
  show ?thesis
    unfolding g topology_edges routing_literal_def
    by (simp add: c nx_add_edge_def nx_add_node_def nx_has_node_def nx_adj_def Let_def)
qed

lemma routing_nodes: "nx_has_node (routing_literal s) a \<longleftrightarrow> a \<in> set node_names"
  by (auto simp: routing_literal_def nx_has_node_def node_names_def node_positions_def)

lemma routing_adj:
  "nx_adj (routing_literal s) ''R1'' =
     [(''R2'', edge_cost s ''R1'' ''R2''), (''R4'', edge_cost s ''R1'' ''R4''), (''N1'', edge_cost s ''R1'' ''N1'')]"
  "nx_adj (routing_literal s) ''R2'' =
     [(''R1'', edge_cost s ''R1'' ''R2''), (''R3'', edge_cost s ''R2'' ''R3''), (''N2'', edge_cost s ''R2'' ''N2'')]"
  "nx_adj (routing_literal s) ''R3'' =
     [(''R2'', edge_cost s ''R2'' ''R3''), (''R4'', edge_cost s ''R3'' ''R4''), (''N3'', edge_cost s ''R3'' ''N3'')]"
  "nx_adj (routing_literal s) ''R4'' = [(''R1'', edge_cost s ''R1'' ''R4''), (''R3'', edge_cost s ''R3'' ''R4'')]"
  "nx_adj (routing_literal s) ''N1'' = [(''R1'', edge_cost s ''R1'' ''N1'')]"
  "nx_adj (routing_literal s) ''N2'' = [(''R2'', edge_cost s ''R2'' ''N2'')]"
  "nx_adj (routing_literal s) ''N3'' = [(''R3'', edge_cost s ''R3'' ''N3'')]"
  "a \<notin> set node_names \<Longrightarrow> nx_adj (routing_literal s) a = []"
  by (simp_all add: routing_literal_def nx_adj_def node_names_def node_positions_def)

lemma routing_neighbours:
  "b \<in> fst ` set (nx_adj (routing_literal s) a) \<longleftrightarrow> (a, b) \<in> edge_keys"
  by (cases a rule: node_cases)
     (auto simp: routing_adj edge_keys_set node_names_def node_positions_def)

lemma routing_weights:
  assumes "reachable s"
  shows "weights_ok (routing_literal s) (edge_cost s)"
  unfolding weights_ok_def
proof (intro allI impI)
  fix u v w
  assume e: "(v, w) \<in> set (nx_adj (routing_literal s) u)"
  then have "v \<in> fst ` set (nx_adj (routing_literal s) u)" by force
  then have k: "(u, v) \<in> edge_keys" by (simp only: routing_neighbours)
  then have n: "nx_has_node (routing_literal s) v"
    using edge_keys_nodes [of u v] by (simp only: routing_nodes)
  have "w = edge_cost s u v \<or> w = edge_cost s v u"
    using e by (cases u rule: node_cases) (auto simp: routing_adj)
  then have "w = edge_cost s u v" using edge_cost_sym [OF assms, of u v] by auto
  then show "w = edge_cost s u v \<and> 0 \<le> w \<and> nx_has_node (routing_literal s) v"
    using n edge_cost_nonneg [OF assms, of u v] by simp
qed

lemma routing_walk: "walk (routing_literal s) p \<longleftrightarrow> topology_walk p"
proof (induction p rule: topology_walk.induct)
  case 1
  show ?case by simp
next
  case (2 a)
  show ?case by (simp add: routing_nodes)
next
  case (3 a b rest)
  then show ?case by (simp add: routing_neighbours)
qed

lemma topology_walk_append:
  "topology_walk p \<Longrightarrow> topology_walk q \<Longrightarrow> last p = hd q \<Longrightarrow> topology_walk (p @ tl q)"
proof (induction p rule: topology_walk.induct)
  case 1
  then show ?case by simp
next
  case (2 a)
  then show ?case by (cases q) simp_all
next
  case (3 a b rest)
  then show ?case by simp
qed

lemma topology_walk_ends:
  "topology_walk p \<Longrightarrow> q \<noteq> [] \<Longrightarrow> last p = hd q \<Longrightarrow>
   hd (p @ tl q) = hd p \<and> last (p @ tl q) = last q"
  by (cases p; cases q) (auto simp: last_append)

lemma to_hub:
  assumes "a \<in> set node_names"
  shows "\<exists>p. topology_walk p \<and> hd p = a \<and> last p = ''R1''"
proof -
  from assms consider "a = ''R1''" | "a = ''R2''" | "a = ''R3''" | "a = ''R4''"
    | "a = ''N1''" | "a = ''N2''" | "a = ''N3''"
    by (auto simp: node_names_def node_positions_def)
  then show ?thesis
  proof cases
    case 1
    show ?thesis unfolding 1
      by (rule exI [of _ "[''R1'']"]) (simp add: node_names_def node_positions_def edge_keys_set)
  next
    case 2
    show ?thesis unfolding 2
      by (rule exI [of _ "[''R2'', ''R1'']"]) (simp add: node_names_def node_positions_def edge_keys_set)
  next
    case 3
    show ?thesis unfolding 3
      by (rule exI [of _ "[''R3'', ''R2'', ''R1'']"]) (simp add: node_names_def node_positions_def edge_keys_set)
  next
    case 4
    show ?thesis unfolding 4
      by (rule exI [of _ "[''R4'', ''R1'']"]) (simp add: node_names_def node_positions_def edge_keys_set)
  next
    case 5
    show ?thesis unfolding 5
      by (rule exI [of _ "[''N1'', ''R1'']"]) (simp add: node_names_def node_positions_def edge_keys_set)
  next
    case 6
    show ?thesis unfolding 6
      by (rule exI [of _ "[''N2'', ''R2'', ''R1'']"]) (simp add: node_names_def node_positions_def edge_keys_set)
  next
    case 7
    show ?thesis unfolding 7
      by (rule exI [of _ "[''N3'', ''R3'', ''R2'', ''R1'']"]) (simp add: node_names_def node_positions_def edge_keys_set)
  qed
qed

lemma edge_keys_sym: "(a, b) \<in> edge_keys \<Longrightarrow> (b, a) \<in> edge_keys"
  unfolding edge_keys_def flip_def by force

lemma topology_walk_snoc:
  "topology_walk p \<Longrightarrow> (last p, v) \<in> edge_keys \<Longrightarrow> topology_walk (p @ [v])"
proof (induction p rule: topology_walk.induct)
  case 1
  then show ?case by simp
next
  case (2 a)
  then show ?case using edge_keys_nodes [of a v] by simp
next
  case (3 a b rest)
  then show ?case by simp
qed

lemma topology_walk_rev: "topology_walk p \<Longrightarrow> topology_walk (rev p)"
proof (induction p rule: topology_walk.induct)
  case 1
  then show ?case by simp
next
  case (2 a)
  then show ?case by simp
next
  case (3 a b rest)
  then have r: "topology_walk (rev (b # rest))" and e: "(b, a) \<in> edge_keys"
    using edge_keys_sym by simp_all
  have l: "last (rev (b # rest)) = b" by simp
  have "topology_walk (rev (b # rest) @ [a])"
    by (rule topology_walk_snoc [OF r]) (simp only: l e)
  then show ?case by simp
qed

lemma topology_connected:
  assumes "a \<in> set node_names" "b \<in> set node_names"
  shows "\<exists>p. topology_walk p \<and> hd p = a \<and> last p = b"
proof -
  from to_hub [OF assms(1)] obtain p where p: "topology_walk p" "hd p = a" "last p = ''R1''"
    by blast
  from to_hub [OF assms(2)] obtain q where q: "topology_walk q" "hd q = b" "last q = ''R1''"
    by blast
  have q0: "q \<noteq> []" using q(1) by (cases q) simp_all
  have r: "topology_walk (rev q)" by (rule topology_walk_rev [OF q(1)])
  have r0: "rev q \<noteq> []" using q0 by simp
  have hr: "hd (rev q) = ''R1''" using q(3) q0 by (simp add: hd_rev)
  have lr: "last (rev q) = b" using q(2) q0 by (simp add: last_rev)
  have j: "last p = hd (rev q)" using p(3) hr by simp
  have "topology_walk (p @ tl (rev q))"
    by (rule topology_walk_append [OF p(1) r j])
  moreover have "hd (p @ tl (rev q)) = hd p \<and> last (p @ tl (rev q)) = last (rev q)"
    by (rule topology_walk_ends [OF p(1) r0 j])
  ultimately show ?thesis using p(2) lr by auto
qed

lemma resolve_reachable:
  assumes "reachable s"
  shows "get_ospf_path sp s a b =
     (case sp (routing_literal s) a b of
        Inl NetworkXNoPath \<Rightarrow> Inl (ValueError (no_path_message a b))
      | Inl e \<Rightarrow> Inl e
      | Inr path \<Rightarrow> Inr path)"
  unfolding get_ospf_path_def routing_graph_eq [OF assms] by simp

lemma resolve_found:
  assumes "reachable s" "nx_contract sp" "a \<in> set node_names" "b \<in> set node_names"
  shows "\<exists>p. get_ospf_path sp s a b = Inr p \<and> topology_walk p \<and> hd p = a \<and> last p = b \<and>
             (\<forall>q. topology_walk q \<and> hd q = a \<and> last q = b \<longrightarrow> path_cost s p \<le> path_cost s q)"
proof -
  let ?g = "routing_literal s"
  have w: "weights_ok ?g (edge_cost s)" by (rule routing_weights [OF assms(1)])
  have n: "nx_has_node ?g a" "nx_has_node ?g b"
    using assms(3,4) by (simp_all only: routing_nodes)
  have c: "case sp ?g a b of
            Inl e \<Rightarrow> e = NetworkXNoPath \<and> (\<forall>q. \<not> (walk ?g q \<and> hd q = a \<and> last q = b))
          | Inr p \<Rightarrow> walk ?g p \<and> hd p = a \<and> last p = b \<and>
              (\<forall>q. walk ?g q \<and> hd q = a \<and> last q = b \<longrightarrow>
                 walk_cost (edge_cost s) p \<le> walk_cost (edge_cost s) q)"
    using assms(2) w n unfolding nx_contract_def by blast
  from topology_connected [OF assms(3,4)]
  obtain q0 where q0: "walk ?g q0 \<and> hd q0 = a \<and> last q0 = b"
    unfolding routing_walk by blast
  show ?thesis
  proof (cases "sp ?g a b")
    case (Inl e)
    from c have "\<forall>q. \<not> (walk ?g q \<and> hd q = a \<and> last q = b)"
      unfolding Inl by simp
    then have "\<not> (walk ?g q0 \<and> hd q0 = a \<and> last q0 = b)" by (rule spec)
    then show ?thesis using q0 by (rule notE)
  next
    case (Inr p)
    then have "get_ospf_path sp s a b = Inr p"
      unfolding resolve_reachable [OF assms(1)] by simp
    then show ?thesis using c unfolding Inr path_cost_def routing_walk by simp
  qed
qed

lemma resolve_same:
  assumes "reachable s" "nx_contract sp" "a \<in> set node_names"
  shows "get_ospf_path sp s a a = Inr [a]"
proof -
  have "nx_has_node (routing_literal s) a" using assms(3) by (simp only: routing_nodes)
  then have "sp (routing_literal s) a a = Inr [a]"
    using assms(2) unfolding nx_contract_def by blast
  then show ?thesis unfolding resolve_reachable [OF assms(1)] by simp
qed

lemma resolve_unknown:
  assumes "reachable s" "nx_contract sp" "a \<notin> set node_names \<or> b \<notin> set node_names"
  shows "get_ospf_path sp s a b = Inl NodeNotFound"
proof -
  have "\<not> nx_has_node (routing_literal s) a \<or> \<not> nx_has_node (routing_literal s) b"
    using assms(3) by (simp only: routing_nodes)
  then have "sp (routing_literal s) a b = Inl NodeNotFound"
    using assms(2) unfolding nx_contract_def by blast
  then show ?thesis unfolding resolve_reachable [OF assms(1)] by simp
qed

lemma example_nodes: "fst ` set (nodes example_sim) = set node_names"
  by (rule reachable_nodes [OF example_sim_ok(1)])

subsection \<open>Stopping the updater\<close>




subsection \<open>The metric table\<close>

text \<open>
  Claim C3.  In every reachable state the two directions of every edge of the topology
  carry the same latency and the same cost, and both are present.
\<close>

theorem metrics_symmetric:
  assumes "reachable s" "(u, v) \<in> set connections"
  shows "latencies s (u, v) = latencies s (v, u) \<and> ospf_costs s (u, v) = ospf_costs s (v, u) \<and>
         latencies s (u, v) \<noteq> None \<and> ospf_costs s (u, v) \<noteq> None"
proof -
  have ok: "state_ok s" by (rule reachable_ok [OF assms(1)])
  then have m: "metrics_ok s" and d: "dom (latencies s) = edge_keys"
    by (simp_all add: state_ok_def)
  have sym: "latencies s (u, v) = latencies s (v, u)" "ospf_costs s (u, v) = ospf_costs s (v, u)"
    using m unfolding metrics_ok_def sym_table_def by blast+
  have "(u, v) \<in> dom (latencies s)"
    unfolding d using assms(2) by (intro in_edge_keys) simp
  then obtain l where l: "latencies s (u, v) = Some l" by blast
  have "ospf_costs s (u, v) = map_option (\<lambda>l. py_int (100 / (l / 10))) (latencies s (u, v))"
    using m unfolding metrics_ok_def cost_tracks_def by blast
  then have c: "ospf_costs s (u, v) \<noteq> None" unfolding l by simp
  have "latencies s (u, v) \<noteq> None" unfolding l by simp
  with sym c show ?thesis by blast
qed

theorem metrics_symmetric_witness:
  "latencies (fst (projr (init (sconst (1 / 2))))) (''R4'', ''R1'') =
     latencies (fst (projr (init (sconst (1 / 2))))) (''R1'', ''R4'') \<and>
   ospf_costs (fst (projr (init (sconst (1 / 2))))) (''R4'', ''R1'') =
     ospf_costs (fst (projr (init (sconst (1 / 2))))) (''R1'', ''R4'')"
  using metrics_symmetric [OF constructed_reachable [OF valid_rng_sconst], of "1 / 2" "''R4''" "''R1''"]
  by (simp add: connections_def)

text \<open>
  Claim C4, as stated, fails: a latency that has drifted above 1000 has cost 0.  With
  every draw of the random module equal to \<open>9/10\<close> the edge R1--R2 starts at latency
  46 and each pass multiplies it by 1.08; after 41 passes its cost is 0.
\<close>

theorem cost_positive_counterexample:
  "reachable (fst (snd (other_tasks 41 (Sleeping, fst (projr (init (sconst (9 / 10)))), sconst (9 / 10))))) \<and>
   ospf_costs (fst (snd (other_tasks 41 (Sleeping, fst (projr (init (sconst (9 / 10)))), sconst (9 / 10)))))
     (''R1'', ''R2'') = Some 0"
proof -
  have k: "(''R1'', ''R2'') \<in> edge_keys"
    by (simp add: edge_keys_def connections_def)
  have x: "(0::real) \<le> 9 / 10" "(9 / 10 :: real) < 1" by simp_all
  from init_const [OF x k] obtain s where i: "init (sconst (9 / 10)) = Inr (s, sconst (9 / 10))"
    and run: "running s" and l: "latencies s (''R1'', ''R2'') = Some (10 + (50 - 10) * (9 / 10))"
    by blast
  have r: "reachable s"
    using reachable.construct [OF valid_rng_sconst [OF x] i] .
  from passes_const [OF r run x l, of 41]
  obtain s' where o: "other_tasks 41 (Sleeping, s, sconst (9 / 10)) = (Sleeping, s', sconst (9 / 10))"
    and r': "reachable s'"
    and l': "latencies s' (''R1'', ''R2'') =
      Some ((10 + (50 - 10) * (9 / 10)) * ((0.9 + (1.1 - 0.9) * (9 / 10)) ^ 1) ^ 41)"
    unfolding hits_R1_R2 by blast
  have m: "metrics_ok s'" using reachable_ok [OF r'] by (simp add: state_ok_def)
  have "ospf_costs s' (''R1'', ''R2'') =
      map_option (\<lambda>l. py_int (100 / (l / 10))) (latencies s' (''R1'', ''R2''))"
    using m unfolding metrics_ok_def cost_tracks_def by blast
  then have "ospf_costs s' (''R1'', ''R2'') = Some 0"
    unfolding l' option.map cost_after_41 .
  then show ?thesis using r' i o by simp
qed

text \<open>
  Claim C4, amended.  In every reachable state every edge has a strictly positive
  latency and a cost that is a non-negative integer; the cost is positive exactly when
  the latency is at most 1000.
\<close>

theorem latency_positive_cost_nonneg:
  assumes "reachable s" "(u, v) \<in> set connections \<or> (v, u) \<in> set connections"
  shows "\<exists>l c. latencies s (u, v) = Some l \<and> 0 < l \<and> ospf_costs s (u, v) = Some c \<and>
               0 \<le> c \<and> (0 < c \<longleftrightarrow> l \<le> 1000)"
proof -
  from edge_entry [OF assms] obtain l where l: "latencies s (u, v) = Some l" "0 < l"
    "ospf_costs s (u, v) = Some (py_int (100 / (l / 10)))" by blast
  have c: "py_int (100 / (l / 10)) = \<lfloor>1000 / l\<rfloor>" by (rule py_int_floor [OF l(2)])
  have "0 \<le> \<lfloor>1000 / l\<rfloor>" using l(2) by simp
  moreover have "0 < \<lfloor>1000 / l\<rfloor> \<longleftrightarrow> l \<le> 1000"
    using l(2) by (simp add: le_divide_eq)
  ultimately show ?thesis using l c by simp
qed

theorem latency_positive_cost_nonneg_witness:
  "\<exists>l c. latencies (fst (projr (init (sconst (1 / 2))))) (''N3'', ''R3'') = Some l \<and> 0 < l \<and>
         ospf_costs (fst (projr (init (sconst (1 / 2))))) (''N3'', ''R3'') = Some c \<and>
         0 \<le> c \<and> (0 < c \<longleftrightarrow> l \<le> 1000)"
  by (rule latency_positive_cost_nonneg [OF constructed_reachable [OF valid_rng_sconst]])
     (simp_all add: connections_def)

subsection \<open>Path resolution\<close>

text \<open>
  Claim C9.  In every reachable state, and for every library routine that meets the
  contract, \<^verbatim>\<open>get_ospf_path(X, X)\<close> returns the one-node path \<open>[X]\<close> for every node
  \<open>X\<close> of \<^verbatim>\<open>self.nodes\<close>.
\<close>

theorem resolve_self:
  assumes "reachable s" "nx_contract shortest_path" "X \<in> fst ` set (nodes s)"
  shows "get_ospf_path shortest_path s X X = Inr [X]"
proof -
  have "X \<in> set node_names"
    using assms(3) unfolding reachable_nodes [OF assms(1)] .
  then show ?thesis by (rule resolve_same [OF assms(1,2)])
qed

theorem resolve_self_witness:
  "get_ospf_path reference_shortest_path example_sim ''N2'' ''N2'' = Inr [''N2'']"
proof -
  have "''N2'' \<in> fst ` set (nodes example_sim)"
    unfolding example_nodes by (simp add: node_names_def node_positions_def)
  then show ?thesis
    by (rule resolve_self [OF example_sim_ok(1) reference_contract])
qed

text \<open>
  Claim C2.  In every reachable state, and for every library routine that meets the
  contract, \<^verbatim>\<open>get_ospf_path\<close> returns for any two nodes a path from the source to the
  destination whose consecutive pairs are connections of the fixed topology and whose
  total cost, the sum of the current \<^verbatim>\<open>ospf_costs\<close> entries along it, is at most the
  total cost of every walk of the topology between the two nodes.  (All nodes of the
  topology are connected, so a path always exists.)  The witness compares the path
  returned for R1 and N3 with the two simple paths between them.
\<close>

theorem resolve_minimal:
  assumes "reachable s" "nx_contract shortest_path"
    and "source \<in> fst ` set (nodes s)" "destination \<in> fst ` set (nodes s)"
  shows "\<exists>path. get_ospf_path shortest_path s source destination = Inr path \<and>
           topology_walk path \<and> hd path = source \<and> last path = destination \<and>
           (\<forall>q. topology_walk q \<and> hd q = source \<and> last q = destination
                \<longrightarrow> path_cost s path \<le> path_cost s q)"
proof -
  have "source \<in> set node_names" "destination \<in> set node_names"
    using assms(3,4) unfolding reachable_nodes [OF assms(1)] .
  then show ?thesis by (rule resolve_found [OF assms(1,2)])
qed

theorem resolve_minimal_witness:
  "\<exists>path. get_ospf_path reference_shortest_path example_sim ''R1'' ''N3'' = Inr path \<and>
     path_cost example_sim path \<le> path_cost example_sim [''R1'', ''R2'', ''R3'', ''N3''] \<and>
     path_cost example_sim path \<le> path_cost example_sim [''R1'', ''R4'', ''R3'', ''N3'']"
proof -
  have a: "''R1'' \<in> fst ` set (nodes example_sim)" "''N3'' \<in> fst ` set (nodes example_sim)"
    unfolding example_nodes by (simp_all add: node_names_def node_positions_def)
  have q1: "topology_walk [''R1'', ''R2'', ''R3'', ''N3''] \<and> hd [''R1'', ''R2'', ''R3'', ''N3''] = ''R1'' \<and>
      last [''R1'', ''R2'', ''R3'', ''N3''] = ''N3''"
    by (simp add: edge_keys_set node_names_def node_positions_def)
  have q2: "topology_walk [''R1'', ''R4'', ''R3'', ''N3''] \<and> hd [''R1'', ''R4'', ''R3'', ''N3''] = ''R1'' \<and>
      last [''R1'', ''R4'', ''R3'', ''N3''] = ''N3''"
    by (simp add: edge_keys_set node_names_def node_positions_def)
  from resolve_minimal [OF example_sim_ok(1) reference_contract a]
  obtain path where p: "get_ospf_path reference_shortest_path example_sim ''R1'' ''N3'' = Inr path"
    and m: "\<forall>q. topology_walk q \<and> hd q = ''R1'' \<and> last q = ''N3''
                \<longrightarrow> path_cost example_sim path \<le> path_cost example_sim q"
    by (elim exE conjE)
  from m [rule_format, OF q1] m [rule_format, OF q2] p
  show ?thesis by (intro exI [of _ path] conjI)
qed

subsection \<open>Unknown nodes\<close>

text \<open>
  Claim C5.  When the source or the destination is not a node, \<^verbatim>\<open>ping\<close> and
  \<^verbatim>\<open>traceroute\<close> raise \<^verbatim>\<open>ValueError("Source or destination node not found")\<close> and
  leave the simulator, the updater and the random module as they were;
  \<^verbatim>\<open>get_ospf_path\<close>, which reads the tables only, fails with the \<^verbatim>\<open>NodeNotFound\<close>
  error of the library.
\<close>

theorem unknown_node_rejected:
  assumes "reachable s" "nx_contract shortest_path"
    and "source \<notin> fst ` set (nodes s) \<or> destination \<notin> fst ` set (nodes s)"
  shows "get_ospf_path shortest_path s source destination = Inl NodeNotFound \<and>
         ping shortest_path sched (t, s, r) source destination count_arg =
           (Inl (ValueError unknown_node_message), (t, s, r)) \<and>
         traceroute shortest_path sched (t, s, r) source destination =
           (Inl (ValueError unknown_node_message), (t, s, r))"
proof -
  have "source \<notin> set node_names \<or> destination \<notin> set node_names"
    using assms(3) unfolding reachable_nodes [OF assms(1)] .
  then have "get_ospf_path shortest_path s source destination = Inl NodeNotFound"
    by (rule resolve_unknown [OF assms(1,2)])
  moreover have "ping shortest_path sched (t, s, r) source destination count_arg =
           (Inl (ValueError unknown_node_message), (t, s, r))"
    using assms(3) by (simp add: ping_def)
  moreover have "traceroute shortest_path sched (t, s, r) source destination =
           (Inl (ValueError unknown_node_message), (t, s, r))"
    using assms(3) by (simp add: traceroute_def)
  ultimately show ?thesis by (intro conjI)
qed

theorem unknown_node_rejected_witness:
  "get_ospf_path reference_shortest_path example_sim ''R1'' ''N9'' = Inl NodeNotFound \<and>
   ping reference_shortest_path (\<lambda>i. 1) (Sleeping, example_sim, sconst (1 / 2)) ''R1'' ''N9'' None =
     (Inl (ValueError unknown_node_message), (Sleeping, example_sim, sconst (1 / 2))) \<and>
   traceroute reference_shortest_path (\<lambda>i. 1) (Sleeping, example_sim, sconst (1 / 2)) ''R1'' ''N9'' =
     (Inl (ValueError unknown_node_message), (Sleeping, example_sim, sconst (1 / 2)))"
proof -
  have "''R1'' \<notin> fst ` set (nodes example_sim) \<or> ''N9'' \<notin> fst ` set (nodes example_sim)"
    unfolding example_nodes by (simp add: node_names_def node_positions_def)
  then show ?thesis
    by (rule unknown_node_rejected [OF example_sim_ok(1) reference_contract])
qed

end
